theory Spec2Isabelle
  imports Main
begin

section \<open>Objects the archive manager works with\<close>

text \<open>
  \<^verbatim>\<open>ArchiveManager.cpp\<close> manipulates pointers to archives, archive entries and
  directory nodes. A pointer is modelled as a natural number (an object identity); a
  nullable pointer as an \<open>option\<close>.
\<close>

type_synonym archive = nat
type_synonym entry = nat
type_synonym treenode = nat
type_synonym search_options = string

text \<open>The archive classes \<^verbatim>\<open>openArchive\<close> can instantiate.\<close>

datatype format =
    WadArchive | ZipArchive | ResArchive | DatArchive | LibArchive | PakArchive
  | BSPArchive | GrpArchive | RffArchive | GobArchive | LfdArchive | HogArchive
  | ADatArchive | Wad2Archive | WadJArchive | WolfArchive | GZipArchive
  | BZip2Archive | TarArchive | DiskArchive | PodArchive | ChasmBinArchive
  | SiNArchive | DirArchive

text \<open>
  Everything the manager calls but does not implement: the file system, the format
  tests and loaders of the archive classes, and the accessors of entries and directory
  nodes. These are parameters of the model.
\<close>

record env =
  fileExists :: "string \<Rightarrow> bool"
  dirExists :: "string \<Rightarrow> bool"
  isArchiveFile :: "format \<Rightarrow> string \<Rightarrow> bool"
  isArchiveData :: "format \<Rightarrow> entry \<Rightarrow> bool"
  openFile :: "format \<Rightarrow> string \<Rightarrow> bool"
  openEntry :: "format \<Rightarrow> entry \<Rightarrow> bool"
  formatId :: "format \<Rightarrow> string"
  allEntries :: "archive \<Rightarrow> entry list"
  detectEntryType :: "entry \<Rightarrow> string option"
  entryName :: "entry \<Rightarrow> string"
  entryParent :: "entry \<Rightarrow> archive option"
  entryParentDir :: "entry \<Rightarrow> treenode option"
  rootDir :: "archive \<Rightarrow> treenode"
  nodeArchive :: "treenode \<Rightarrow> archive"
  nodeDirEntry :: "treenode \<Rightarrow> entry"
  nodeParent :: "treenode \<Rightarrow> treenode option"
  archiveEntry :: "archive \<Rightarrow> string \<Rightarrow> entry option"
  findLast :: "archive \<Rightarrow> search_options \<Rightarrow> entry option"
  findAll :: "archive \<Rightarrow> search_options \<Rightarrow> entry list"

text \<open>One element of \<^verbatim>\<open>open_archives_\<close>.\<close>

record OpenArchive =
  archive :: archive
  resource :: bool
  open_children :: "archive list"

text \<open>
  What the manager does to the outside: announcements (event name and the index written
  into the payload, if any), calls to the resource manager, \<^verbatim>\<open>listenTo\<close>, and closing
  and deleting an archive object.
\<close>

datatype event =
    Announce string "int option"
  | ListenTo archive
  | ResourceAdd archive
  | ResourceRemove archive
  | ArchiveClose archive

text \<open>
  The manager's members, the three configuration variables of the file, the attributes
  of archive objects that the manager's own calls set (\<^verbatim>\<open>filename()\<close>,
  the class, \<^verbatim>\<open>parentEntry()\<close>, the type of an entry), and the next object
  identity \<^verbatim>\<open>new\<close> hands out.
\<close>

record state =
  open_archives :: "OpenArchive list"
  base_resource_archive :: "archive option"
  base_resource_paths :: "string list"
  recent_files :: "string list"
  bookmarks :: "entry list"
  base_resource :: int
  max_recent_files :: int
  auto_open_wads_root :: bool
  muted :: bool
  events :: "event list"
  archiveFilename :: "archive \<Rightarrow> string"
  archiveFormat :: "archive \<Rightarrow> format"
  parentEntry :: "archive \<Rightarrow> entry option"
  entryType :: "entry \<Rightarrow> string option"
  next_archive :: archive

text \<open>
  A computation that recurses through the registry gets fuel; it can also reach
  undefined behaviour of the C++ (an index out of range, a null pointer dereferenced).
\<close>

datatype 'a outcome = OutOfFuel | Undefined | Returns 'a

subsection \<open>Integer casts\<close>

definition to_unsigned :: "int \<Rightarrow> nat" where
  "to_unsigned i = nat (i mod 2 ^ 32)"

definition to_signed :: "nat \<Rightarrow> int" where
  "to_signed n = (let m = int n mod 2 ^ 32 in if m < 2 ^ 31 then m else m - 2 ^ 32)"

subsection \<open>Announcements\<close>

text \<open>
  Modelled from the spec: \<^verbatim>\<open>Announcer::announce\<close> and \<^verbatim>\<open>setMuted\<close> (the announcer
  class is not part of the file): a muted announcer drops the announcement, otherwise
  it is delivered.
\<close>

definition announce :: "string \<Rightarrow> int option \<Rightarrow> state \<Rightarrow> state" where
  "announce event_name event_data s =
     (if muted s then s else s\<lparr>events := events s @ [Announce event_name event_data]\<rparr>)"

definition setMuted :: "bool \<Rightarrow> state \<Rightarrow> state" where
  "setMuted m s = s\<lparr>muted := m\<rparr>"

definition call :: "event \<Rightarrow> state \<Rightarrow> state" where
  "call e s = s\<lparr>events := events s @ [e]\<rparr>"

text \<open>How many announcements of one name a list of events holds.\<close>

definition announced :: "string \<Rightarrow> event list \<Rightarrow> nat" where
  "announced event_name es =
     length (filter (\<lambda>e. case e of Announce n d \<Rightarrow> n = event_name | _ \<Rightarrow> False) es)"

section \<open>Recent files\<close>

text \<open>\<^verbatim>\<open>path.Replace("\\", "/")\<close>\<close>

definition replace_backslash :: "string \<Rightarrow> string" where
  "replace_backslash path = map (\<lambda>c. if c = CHR 0x5C then CHR ''/'' else c) path"

text \<open>The first index \<open>a\<close>, counted from \<open>i\<close>, with \<open>xs[a] == x\<close>.\<close>

fun first_index :: "'a list \<Rightarrow> 'a \<Rightarrow> nat \<Rightarrow> nat option" where
  "first_index [] x i = None"
| "first_index (y # ys) x i = (if y = x then Some i else first_index ys x (Suc i))"

text \<open>\<^verbatim>\<open>v.erase(v.begin() + a)\<close>\<close>

definition erase_at :: "nat \<Rightarrow> 'a list \<Rightarrow> 'a list" where
  "erase_at a xs = take a xs @ drop (Suc a) xs"

text \<open>\<^verbatim>\<open>while (recent_files_.size() > (unsigned)max_recent_files) recent_files_.pop_back();\<close>\<close>

function trim_recent :: "nat \<Rightarrow> string list \<Rightarrow> string list" where
  "trim_recent m xs = (if length xs > m then trim_recent m (butlast xs) else xs)"
  by pat_completeness auto
termination
  by (relation "measure (\<lambda>(m, xs). length xs)") auto

declare trim_recent.simps [simp del]

definition addRecentFile :: "env \<Rightarrow> string \<Rightarrow> state \<Rightarrow> state" where
  "addRecentFile env path0 s =
     (if \<not> (fileExists env path0 \<or> dirExists env path0) then s
      else
        let path = replace_backslash path0 in
        case first_index (recent_files s) path 0 of
          Some a \<Rightarrow>
            announce ''recent_files_changed'' None
              (s\<lparr>recent_files := path # erase_at a (recent_files s)\<rparr>)
        | None \<Rightarrow>
            announce ''recent_files_changed'' None
              (s\<lparr>recent_files :=
                   trim_recent (to_unsigned (max_recent_files s)) (path # recent_files s)\<rparr>))"

fun addRecentFile_each :: "env \<Rightarrow> string list \<Rightarrow> state \<Rightarrow> state" where
  "addRecentFile_each env [] s = s"
| "addRecentFile_each env (path # paths) s = addRecentFile_each env paths (addRecentFile env path s)"

definition addRecentFiles :: "env \<Rightarrow> string list \<Rightarrow> state \<Rightarrow> state" where
  "addRecentFiles env paths s =
     (let s1 = setMuted True s;
          s2 = s1\<lparr>recent_files := []\<rparr>;
          s3 = addRecentFile_each env paths s2;
          s4 = setMuted False s3
      in announce ''recent_files_changed'' None s4)"

definition removeRecentFile :: "string \<Rightarrow> state \<Rightarrow> state" where
  "removeRecentFile path s =
     (case first_index (recent_files s) path 0 of
        Some a \<Rightarrow> announce ''recent_files_changed'' None (s\<lparr>recent_files := erase_at a (recent_files s)\<rparr>)
      | None \<Rightarrow> s)"

text \<open>The invariant of the recent-file list: within the configured maximum, no duplicates.\<close>

definition recent_files_ok :: "state \<Rightarrow> bool" where
  "recent_files_ok s =
     (int (length (recent_files s)) \<le> max_recent_files s \<and> distinct (recent_files s))"

section \<open>Base resource archive\<close>

text \<open>
  \<^verbatim>\<open>openBaseResource\<close>. The archive object made by \<^verbatim>\<open>std::make_unique\<close> gets the
  next object identity when it stays loaded; one that fails to open is destroyed again.
  The splash window is not modelled.
\<close>

definition openBaseResource :: "env \<Rightarrow> int \<Rightarrow> state \<Rightarrow> bool \<times> state" where
  "openBaseResource env index s =
     (if base_resource_archive s \<noteq> None \<and> base_resource s = index then (True, s)
      else
        let s1 = (case base_resource_archive s of
                    Some b \<Rightarrow> (call (ResourceRemove b) s)\<lparr>base_resource_archive := None\<rparr>
                  | None \<Rightarrow> s)
        in
        if index < 0 \<or> to_unsigned index \<ge> length (base_resource_paths s1)
        then (False, announce ''base_resource_changed'' None (s1\<lparr>base_resource := -1\<rparr>))
        else
          let filename = base_resource_paths s1 ! nat index in
          case (if isArchiveFile env WadArchive filename then Some WadArchive
                else if isArchiveFile env ZipArchive filename then Some ZipArchive
                else None) of
            None \<Rightarrow> (False, s1)
          | Some fmt \<Rightarrow>
              if openFile env fmt filename
              then
                let b = next_archive s1;
                    s2 = s1\<lparr>next_archive := Suc b,
                            archiveFilename := (archiveFilename s1)(b := filename),
                            archiveFormat := (archiveFormat s1)(b := fmt),
                            parentEntry := (parentEntry s1)(b := None),
                            base_resource_archive := Some b,
                            base_resource := index\<rparr>;
                    s3 = call (ResourceAdd b) s2
                in (True, announce ''base_resource_changed'' None s3)
              else (False, announce ''base_resource_changed'' None s1))"

text \<open>
  \<^verbatim>\<open>addBaseResourcePath\<close>. The macro \<^verbatim>\<open>S_CMP\<close> is defined outside the file; it is the
  parameter \<open>s_cmp\<close>.
\<close>

definition addBaseResourcePath :: "(string \<Rightarrow> string \<Rightarrow> bool) \<Rightarrow> env \<Rightarrow> string \<Rightarrow> state \<Rightarrow> bool \<times> state" where
  "addBaseResourcePath s_cmp env path s =
     (if \<not> fileExists env path then (False, s)
      else if list_ex (\<lambda>base_resource_path. s_cmp base_resource_path path) (base_resource_paths s)
      then (False, s)
      else (True, announce ''base_resource_path_added'' None
                    (s\<lparr>base_resource_paths := base_resource_paths s @ [path]\<rparr>)))"

text \<open>\<^verbatim>\<open>removeBaseResourcePath(unsigned index)\<close>\<close>

definition removeBaseResourcePath :: "env \<Rightarrow> nat \<Rightarrow> state \<Rightarrow> state" where
  "removeBaseResourcePath env index s =
     (if index \<ge> length (base_resource_paths s) then s
      else
        let s1 = (if index = to_unsigned (base_resource s) then snd (openBaseResource env (-1) s)
                  else if base_resource s > to_signed index
                  then s\<lparr>base_resource := base_resource s - 1\<rparr>
                  else s);
            s2 = s1\<lparr>base_resource_paths := erase_at index (base_resource_paths s1)\<rparr>
        in announce ''base_resource_path_removed'' None s2)"

section \<open>Resource lookup\<close>

text \<open>The loop over \<^verbatim>\<open>open_archives_\<close> of \<^verbatim>\<open>getResourceEntry\<close>.\<close>

fun getResourceEntry_open :: "env \<Rightarrow> OpenArchive list \<Rightarrow> string \<Rightarrow> archive option \<Rightarrow> entry option" where
  "getResourceEntry_open env [] name ignore = None"
| "getResourceEntry_open env (open_archive # rest) name ignore =
     (if \<not> resource open_archive then getResourceEntry_open env rest name ignore
      else if Some (archive open_archive) = ignore then getResourceEntry_open env rest name ignore
      else case archiveEntry env (archive open_archive) name of
             Some e \<Rightarrow> Some e
           | None \<Rightarrow> getResourceEntry_open env rest name ignore)"

definition getResourceEntry :: "env \<Rightarrow> string \<Rightarrow> archive option \<Rightarrow> state \<Rightarrow> entry option" where
  "getResourceEntry env name ignore s =
     (case getResourceEntry_open env (open_archives s) name ignore of
        Some e \<Rightarrow> Some e
      | None \<Rightarrow>
          (case base_resource_archive s of
             Some b \<Rightarrow> archiveEntry env b name
           | None \<Rightarrow> None))"

fun findResourceEntry_open :: "env \<Rightarrow> OpenArchive list \<Rightarrow> search_options \<Rightarrow> archive option \<Rightarrow> entry option" where
  "findResourceEntry_open env [] options ignore = None"
| "findResourceEntry_open env (open_archive # rest) options ignore =
     (if \<not> resource open_archive then findResourceEntry_open env rest options ignore
      else if Some (archive open_archive) = ignore then findResourceEntry_open env rest options ignore
      else case findLast env (archive open_archive) options of
             Some e \<Rightarrow> Some e
           | None \<Rightarrow> findResourceEntry_open env rest options ignore)"

definition findResourceEntry :: "env \<Rightarrow> search_options \<Rightarrow> archive option \<Rightarrow> state \<Rightarrow> entry option" where
  "findResourceEntry env options ignore s =
     (case findResourceEntry_open env (open_archives s) options ignore of
        Some e \<Rightarrow> Some e
      | None \<Rightarrow>
          (case base_resource_archive s of
             Some b \<Rightarrow> findLast env b options
           | None \<Rightarrow> None))"

fun findAllResourceEntries_open :: "env \<Rightarrow> OpenArchive list \<Rightarrow> search_options \<Rightarrow> archive option \<Rightarrow> entry list \<Rightarrow> entry list" where
  "findAllResourceEntries_open env [] options ignore ret = ret"
| "findAllResourceEntries_open env (open_archive # rest) options ignore ret =
     (if \<not> resource open_archive then findAllResourceEntries_open env rest options ignore ret
      else if Some (archive open_archive) = ignore
      then findAllResourceEntries_open env rest options ignore ret
      else findAllResourceEntries_open env rest options ignore
             (ret @ findAll env (archive open_archive) options))"

definition findAllResourceEntries :: "env \<Rightarrow> search_options \<Rightarrow> archive option \<Rightarrow> state \<Rightarrow> entry list" where
  "findAllResourceEntries env options ignore s =
     (let ret = (case base_resource_archive s of
                   Some b \<Rightarrow> [] @ findAll env b options
                 | None \<Rightarrow> [])
      in findAllResourceEntries_open env (open_archives s) options ignore ret)"

text \<open>
  The registry records a lookup searches: resource flag set, archive not the one to
  ignore; in registration order.
\<close>

definition eligible :: "archive option \<Rightarrow> state \<Rightarrow> OpenArchive list" where
  "eligible ignore s =
     filter (\<lambda>oa. resource oa \<and> Some (archive oa) \<noteq> ignore) (open_archives s)"

section \<open>Bookmarks\<close>

definition deleteBookmark :: "entry \<Rightarrow> state \<Rightarrow> bool \<times> state" where
  "deleteBookmark e s =
     (case first_index (bookmarks s) e 0 of
        Some a \<Rightarrow>
          (True, announce ''bookmarks_changed'' None (s\<lparr>bookmarks := erase_at a (bookmarks s)\<rparr>))
      | None \<Rightarrow> (False, s))"

text \<open>\<^verbatim>\<open>deleteBookmark(unsigned index)\<close>\<close>

definition deleteBookmark_index :: "nat \<Rightarrow> state \<Rightarrow> bool \<times> state" where
  "deleteBookmark_index index s =
     (if index \<ge> length (bookmarks s) then (False, s)
      else (True, announce ''bookmarks_changed'' None
                    (s\<lparr>bookmarks := erase_at index (bookmarks s)\<rparr>)))"

text \<open>
  The loop of \<^verbatim>\<open>deleteBookmarksInArchive\<close> over the bookmarks not yet visited: a
  bookmark whose entry's parent archive is the given one is erased (and the index
  stepped back), the others stay. It returns the flag \<^verbatim>\<open>removed\<close> and what is left.
\<close>

fun deleteBookmarksInArchive_loop :: "env \<Rightarrow> archive \<Rightarrow> entry list \<Rightarrow> bool \<Rightarrow> bool \<times> entry list" where
  "deleteBookmarksInArchive_loop env ar [] removed = (removed, [])"
| "deleteBookmarksInArchive_loop env ar (b # bs) removed =
     (if entryParent env b = Some ar then deleteBookmarksInArchive_loop env ar bs True
      else
        let (removed', bs') = deleteBookmarksInArchive_loop env ar bs removed
        in (removed', b # bs'))"

definition deleteBookmarksInArchive :: "env \<Rightarrow> archive \<Rightarrow> state \<Rightarrow> bool \<times> state" where
  "deleteBookmarksInArchive env ar s =
     (let (removed, bs) = deleteBookmarksInArchive_loop env ar (bookmarks s) False;
          s1 = s\<lparr>bookmarks := bs\<rparr>
      in if removed then (True, announce ''bookmarks_changed'' None s1) else (False, s1))"

text \<open>
  The inner loop of \<^verbatim>\<open>deleteBookmarksInDir\<close>: walk from \<open>anode\<close> up the directory tree
  until the archive's root directory or the removed node is met. A null \<open>anode\<close> is
  dereferenced by \<^verbatim>\<open>anode->parent()\<close>.
\<close>

fun within_removed_dir :: "nat \<Rightarrow> env \<Rightarrow> treenode \<Rightarrow> treenode \<Rightarrow> treenode option \<Rightarrow> bool outcome" where
  "within_removed_dir 0 env node root anode = OutOfFuel"
| "within_removed_dir (Suc fuel) env node root anode =
     (if anode = Some root then Returns False
      else case anode of
             None \<Rightarrow> Undefined
           | Some an \<Rightarrow>
               if an = node then Returns True
               else within_removed_dir fuel env node root (nodeParent env an))"

fun deleteBookmarksInDir_loop :: "nat \<Rightarrow> env \<Rightarrow> treenode \<Rightarrow> archive \<Rightarrow> entry list \<Rightarrow> bool \<Rightarrow> (bool \<times> entry list) outcome" where
  "deleteBookmarksInDir_loop fuel env node ar [] removed = Returns (removed, [])"
| "deleteBookmarksInDir_loop fuel env node ar (b # bs) removed =
     (let keep = (\<lambda>r. case r of
                         Returns (removed', bs') \<Rightarrow> Returns (removed', b # bs')
                       | OutOfFuel \<Rightarrow> OutOfFuel
                       | Undefined \<Rightarrow> Undefined)
      in
      if entryParent env b = Some ar
      then
        (case within_removed_dir fuel env node (rootDir env ar) (entryParentDir env b) of
           OutOfFuel \<Rightarrow> OutOfFuel
         | Undefined \<Rightarrow> Undefined
         | Returns remove \<Rightarrow>
             if remove then deleteBookmarksInDir_loop fuel env node ar bs True
             else keep (deleteBookmarksInDir_loop fuel env node ar bs removed))
      else keep (deleteBookmarksInDir_loop fuel env node ar bs removed))"

definition deleteBookmarksInDir :: "nat \<Rightarrow> env \<Rightarrow> treenode \<Rightarrow> state \<Rightarrow> (bool \<times> state) outcome" where
  "deleteBookmarksInDir fuel env node s =
     (let ar = nodeArchive env node;
          (removed, s1) = deleteBookmark (nodeDirEntry env node) s
      in case deleteBookmarksInDir_loop fuel env node ar (bookmarks s1) removed of
           OutOfFuel \<Rightarrow> OutOfFuel
         | Undefined \<Rightarrow> Undefined
         | Returns (removed', bs) \<Rightarrow>
             let s2 = s1\<lparr>bookmarks := bs\<rparr>
             in if removed' then Returns (True, announce ''bookmarks_changed'' None s2)
                else Returns (False, s2))"

section \<open>The registry: index, close, dependents\<close>

text \<open>\<^verbatim>\<open>archiveIndex\<close>: the loop from index \<open>a\<close> on.\<close>

fun archiveIndex_from :: "OpenArchive list \<Rightarrow> nat \<Rightarrow> archive \<Rightarrow> int" where
  "archiveIndex_from [] a ar = -1"
| "archiveIndex_from (open_archive # rest) a ar =
     (if archive open_archive = ar then int a else archiveIndex_from rest (Suc a) ar)"

definition archiveIndex :: "archive \<Rightarrow> state \<Rightarrow> int" where
  "archiveIndex ar s = archiveIndex_from (open_archives s) 0 ar"

text \<open>A range-for loop whose body may not return.\<close>

fun for_each :: "('a \<Rightarrow> 's \<Rightarrow> 's outcome) \<Rightarrow> 'a list \<Rightarrow> 's \<Rightarrow> 's outcome" where
  "for_each body [] s = Returns s"
| "for_each body (x # xs) s =
     (case body x s of
        Returns s' \<Rightarrow> for_each body xs s'
      | OutOfFuel \<Rightarrow> OutOfFuel
      | Undefined \<Rightarrow> Undefined)"

text \<open>
  The loop that removes an archive from its parent's \<^verbatim>\<open>open_children\<close>: the first
  element equal to it is erased, then \<^verbatim>\<open>break\<close>.
\<close>

fun erase_first :: "'a \<Rightarrow> 'a list \<Rightarrow> 'a list" where
  "erase_first x [] = []"
| "erase_first x (y # ys) = (if y = x then ys else y # erase_first x ys)"

text \<open>
  \<^verbatim>\<open>closeArchive(int index)\<close> after its loop over the children: the archive at \<open>index\<close>
  is taken out of its parent's child list, closed and deleted, and its record erased.
  Reading \<^verbatim>\<open>open_archives_[index]\<close> past the end of the vector is undefined.
\<close>

definition closeArchive_finish :: "env \<Rightarrow> int \<Rightarrow> state \<Rightarrow> (bool \<times> state) outcome" where
  "closeArchive_finish env index s5 =
     (if index \<ge> int (length (open_archives s5)) then Undefined
      else
        let ar = archive (open_archives s5 ! nat index);
            s6 = (case parentEntry s5 ar of
                    None \<Rightarrow> s5
                  | Some parent \<Rightarrow>
                      (case entryParent env parent of
                         None \<Rightarrow> s5
                       | Some gp \<Rightarrow>
                           let pi = archiveIndex gp s5 in
                           if pi \<ge> 0
                           then s5\<lparr>open_archives := (open_archives s5)
                                  [nat pi := (open_archives s5 ! nat pi)
                                     \<lparr>open_children :=
                                        erase_first ar (open_children (open_archives s5 ! nat pi))\<rparr>]\<rparr>
                           else s5));
            s7 = call (ArchiveClose ar) s6;
            s8 = s7\<lparr>open_archives := erase_at (nat index) (open_archives s7)\<rparr>;
            s9 = announce ''archive_closed'' (Some index) s8
        in Returns (True, s9))"

text \<open>
  \<^verbatim>\<open>closeArchive(int index)\<close>. The recursion through the child archives is bounded by
  fuel.
\<close>

fun closeArchive :: "nat \<Rightarrow> env \<Rightarrow> int \<Rightarrow> state \<Rightarrow> (bool \<times> state) outcome" where
  "closeArchive 0 env index s = OutOfFuel"
| "closeArchive (Suc fuel) env index s =
     (if index < 0 \<or> index \<ge> int (length (open_archives s)) then Returns (False, s)
      else
        let s1 = announce ''archive_closing'' (Some index) s;
            s2 = snd (deleteBookmarksInArchive env (archive (open_archives s1 ! nat index)) s1);
            s3 = call (ResourceRemove (archive (open_archives s2 ! nat index))) s2;
            children = open_children (open_archives s3 ! nat index);
            s4 = s3\<lparr>open_archives := (open_archives s3)
                      [nat index := (open_archives s3 ! nat index)\<lparr>open_children := []\<rparr>]\<rparr>
        in
        case for_each
               (\<lambda>ar t. let ci = archiveIndex ar t in
                        if ci \<ge> 0
                        then (case closeArchive fuel env ci t of
                                Returns r \<Rightarrow> Returns (snd r)
                              | OutOfFuel \<Rightarrow> OutOfFuel
                              | Undefined \<Rightarrow> Undefined)
                        else Returns t)
               children s4 of
          OutOfFuel \<Rightarrow> OutOfFuel
        | Undefined \<Rightarrow> Undefined
        | Returns s5 \<Rightarrow> closeArchive_finish env index s5)"

text \<open>
  \<^verbatim>\<open>closeArchive(const wxString& filename)\<close>: the loop from index \<open>a\<close> on, over the
  records not yet compared.
\<close>

fun closeArchive_filename_from :: "nat \<Rightarrow> env \<Rightarrow> string \<Rightarrow> OpenArchive list \<Rightarrow> nat \<Rightarrow> state \<Rightarrow> (bool \<times> state) outcome" where
  "closeArchive_filename_from fuel env filename [] a s = Returns (False, s)"
| "closeArchive_filename_from fuel env filename (open_archive # rest) a s =
     (if archiveFilename s (archive open_archive) = filename then closeArchive fuel env (int a) s
      else closeArchive_filename_from fuel env filename rest (Suc a) s)"

definition closeArchive_filename :: "nat \<Rightarrow> env \<Rightarrow> string \<Rightarrow> state \<Rightarrow> (bool \<times> state) outcome" where
  "closeArchive_filename fuel env filename s =
     closeArchive_filename_from fuel env filename (open_archives s) 0 s"

text \<open>\<^verbatim>\<open>closeArchive(Archive* archive)\<close>, in the same way.\<close>

fun closeArchive_archive_from :: "nat \<Rightarrow> env \<Rightarrow> archive \<Rightarrow> OpenArchive list \<Rightarrow> nat \<Rightarrow> state \<Rightarrow> (bool \<times> state) outcome" where
  "closeArchive_archive_from fuel env ar [] a s = Returns (False, s)"
| "closeArchive_archive_from fuel env ar (open_archive # rest) a s =
     (if archive open_archive = ar then closeArchive fuel env (int a) s
      else closeArchive_archive_from fuel env ar rest (Suc a) s)"

definition closeArchive_archive :: "nat \<Rightarrow> env \<Rightarrow> archive \<Rightarrow> state \<Rightarrow> (bool \<times> state) outcome" where
  "closeArchive_archive fuel env ar s =
     closeArchive_archive_from fuel env ar (open_archives s) 0 s"

text \<open>
  \<^verbatim>\<open>getDependentArchivesInternal\<close>, with fuel for the recursion. For an archive that is
  not in the list, \<^verbatim>\<open>open_archives_[-1]\<close> is read.
\<close>

fun getDependentArchivesInternal :: "nat \<Rightarrow> archive \<Rightarrow> state \<Rightarrow> archive list \<Rightarrow> archive list outcome" where
  "getDependentArchivesInternal 0 ar s vec = OutOfFuel"
| "getDependentArchivesInternal (Suc fuel) ar s vec =
     (let ai = archiveIndex ar s in
      if ai < 0 then Undefined
      else for_each (\<lambda>child v. getDependentArchivesInternal fuel child s (v @ [child]))
             (open_children (open_archives s ! nat ai)) vec)"

definition getDependentArchives :: "nat \<Rightarrow> archive \<Rightarrow> state \<Rightarrow> archive list outcome" where
  "getDependentArchives fuel ar s = getDependentArchivesInternal fuel ar s []"

subsection \<open>The nesting forest\<close>

text \<open>The archive an archive was opened from: \<^verbatim>\<open>parentEntry()->parent()\<close>.\<close>

definition parent_archive :: "env \<Rightarrow> state \<Rightarrow> archive \<Rightarrow> archive option" where
  "parent_archive env s ar =
     (case parentEntry s ar of None \<Rightarrow> None | Some e \<Rightarrow> entryParent env e)"

text \<open>
  The invariant of the registry that \<^verbatim>\<open>openArchive\<close> establishes: one record per
  archive; every archive in a record's child list is itself open, registered after
  the record (it was opened from an entry of the record's archive, which was open
  then), listed once, and was opened from an entry of the record's archive.
\<close>

fun registry_ok :: "(archive \<Rightarrow> archive option) \<Rightarrow> OpenArchive list \<Rightarrow> bool" where
  "registry_ok par [] = True"
| "registry_ok par (oa # rest) =
     (archive oa \<notin> archive ` set rest
      \<and> distinct (open_children oa)
      \<and> (\<forall>c \<in> set (open_children oa). c \<in> archive ` set rest \<and> par c = Some (archive oa))
      \<and> registry_ok par rest)"

text \<open>
  An archive followed by the archives nested in it, depth first, parents before
  children (the order of \<^verbatim>\<open>getDependentArchives\<close>); and the same archives with the
  children of an archive before the archive itself.
\<close>

fun subtree :: "OpenArchive list \<Rightarrow> archive \<Rightarrow> archive list" where
  "subtree [] ar = [ar]"
| "subtree (oa # rest) ar =
     (if archive oa = ar then ar # concat (map (subtree rest) (open_children oa))
      else subtree rest ar)"

fun children_first :: "OpenArchive list \<Rightarrow> archive \<Rightarrow> archive list" where
  "children_first [] ar = [ar]"
| "children_first (oa # rest) ar =
     (if archive oa = ar then concat (map (children_first rest) (open_children oa)) @ [ar]
      else children_first rest ar)"

text \<open>The calls a list of events holds, in order.\<close>

fun resource_removals :: "event list \<Rightarrow> archive list" where
  "resource_removals [] = []"
| "resource_removals (ResourceRemove ar # es) = ar # resource_removals es"
| "resource_removals (e # es) = resource_removals es"

fun archive_closes :: "event list \<Rightarrow> archive list" where
  "archive_closes [] = []"
| "archive_closes (ArchiveClose ar # es) = ar # archive_closes es"
| "archive_closes (e # es) = archive_closes es"

text \<open>
  Notions used to describe what closing does to the registry: where the record of an
  archive stands, the registry without the records of a set of archives, and a record
  with one archive taken off its child list.
\<close>

definition position :: "OpenArchive list \<Rightarrow> archive \<Rightarrow> nat" where
  "position rs ar = length (takeWhile (\<lambda>oa. archive oa \<noteq> ar) rs)"

definition without :: "archive set \<Rightarrow> OpenArchive list \<Rightarrow> OpenArchive list" where
  "without X rs = filter (\<lambda>oa. archive oa \<notin> X) rs"

definition unlist :: "archive \<Rightarrow> OpenArchive \<Rightarrow> OpenArchive" where
  "unlist ar oa = oa\<lparr>open_children := remove1 ar (open_children oa)\<rparr>"

text \<open>
  The state after the archives \<open>X\<close> have been closed, \<open>ar\<close> the one the close was asked
  for: their records are gone, \<open>ar\<close> is off its parent's child list, the bookmarks
  into them are gone, and the events \<open>evs\<close> have happened.
\<close>

definition closed_state :: "env \<Rightarrow> archive \<Rightarrow> archive set \<Rightarrow> event list \<Rightarrow> state \<Rightarrow> state" where
  "closed_state env ar X evs s =
     s\<lparr>open_archives := map (unlist ar) (without X (open_archives s)),
       bookmarks := filter (\<lambda>b. entryParent env b \<notin> Some ` X) (bookmarks s),
       events := events s @ evs\<rparr>"

section \<open>Opening archives\<close>

text \<open>Why an open returned the null pointer.\<close>

datatype open_error = NullEntry | UnsupportedFormat | LoadFailure

text \<open>
  The format tests of \<^verbatim>\<open>openArchive(filename)\<close> and of \<^verbatim>\<open>openArchive(entry)\<close>, in the order
  of their \<^verbatim>\<open>if\<close> chains (the second tests \<^verbatim>\<open>LibArchive\<close> before \<^verbatim>\<open>DatArchive\<close>).
\<close>

definition file_formats :: "format list" where
  "file_formats =
     [WadArchive, ZipArchive, ResArchive, DatArchive, LibArchive, PakArchive, BSPArchive,
      GrpArchive, RffArchive, GobArchive, LfdArchive, HogArchive, ADatArchive, Wad2Archive,
      WadJArchive, WolfArchive, GZipArchive, BZip2Archive, TarArchive, DiskArchive,
      PodArchive, ChasmBinArchive, SiNArchive]"

definition entry_formats :: "format list" where
  "entry_formats =
     [WadArchive, ZipArchive, ResArchive, LibArchive, DatArchive, PakArchive, BSPArchive,
      GrpArchive, RffArchive, GobArchive, LfdArchive, HogArchive, ADatArchive, Wad2Archive,
      WadJArchive, WolfArchive, GZipArchive, BZip2Archive, TarArchive, DiskArchive,
      PodArchive, ChasmBinArchive, SiNArchive]"

definition detect_file :: "env \<Rightarrow> string \<Rightarrow> format option" where
  "detect_file env filename = find (\<lambda>fmt. isArchiveFile env fmt filename) file_formats"

text \<open>
  \<^verbatim>\<open>StrUtil::endsWithCI(entry->name(), ".pod")\<close> is a parameter: \<open>ends_pod\<close> says for which
  names it holds.
\<close>

definition detect_entry :: "(string \<Rightarrow> bool) \<Rightarrow> env \<Rightarrow> entry \<Rightarrow> format option" where
  "detect_entry ends_pod env e =
     find (\<lambda>fmt. if fmt = PodArchive then ends_pod (entryName env e) \<and> isArchiveData env fmt e
                  else isArchiveData env fmt e)
       entry_formats"

text \<open>
  \<^verbatim>\<open>new XArchive()\<close> followed by a successful \<^verbatim>\<open>open\<close>: the object gets the next
  identity; \<^verbatim>\<open>open(filename)\<close> records the file name, \<^verbatim>\<open>open(entry)\<close> the entry the
  archive was read from. An object whose \<^verbatim>\<open>open\<close> fails is deleted at once and leaves
  no trace.
\<close>

definition instantiate :: "format \<Rightarrow> string option \<Rightarrow> entry option \<Rightarrow> state \<Rightarrow> archive \<times> state" where
  "instantiate fmt fname pe s =
     (let a = next_archive s in
      (a, s\<lparr>next_archive := Suc a,
            archiveFilename := (case fname of
                                  Some f \<Rightarrow> (archiveFilename s)(a := f)
                                | None \<Rightarrow> archiveFilename s),
            archiveFormat := (archiveFormat s)(a := fmt),
            parentEntry := (parentEntry s)(a := pe)\<rparr>))"

text \<open>\<^verbatim>\<open>getArchive(const wxString& filename)\<close>\<close>

fun getArchive_from :: "state \<Rightarrow> OpenArchive list \<Rightarrow> string \<Rightarrow> archive option" where
  "getArchive_from s [] filename = None"
| "getArchive_from s (open_archive # rest) filename =
     (if archiveFilename s (archive open_archive) = filename then Some (archive open_archive)
      else getArchive_from s rest filename)"

definition getArchive :: "string \<Rightarrow> state \<Rightarrow> archive option" where
  "getArchive filename s = getArchive_from s (open_archives s) filename"

text \<open>The announcement of \<^verbatim>\<open>archive_opened\<close> with the archive's index, unless silent.\<close>

definition announce_opened :: "bool \<Rightarrow> archive \<Rightarrow> state \<Rightarrow> state" where
  "announce_opened silent ar s =
     (if \<not> silent
      then announce ''archive_opened'' (Some (int (to_unsigned (archiveIndex ar s)))) s
      else s)"

text \<open>
  \<^verbatim>\<open>openArchive(ArchiveEntry* entry, bool manage, bool silent)\<close>, with \<^verbatim>\<open>addArchive\<close> as
  a parameter \<open>add\<close> (the two functions call each other).
\<close>

fun entry_already_open :: "state \<Rightarrow> OpenArchive list \<Rightarrow> entry \<Rightarrow> archive option" where
  "entry_already_open s [] e = None"
| "entry_already_open s (open_archive # rest) e =
     (if parentEntry s (archive open_archive) = Some e then Some (archive open_archive)
      else entry_already_open s rest e)"

definition openArchive_entry_with ::
  "(archive option \<Rightarrow> state \<Rightarrow> (bool \<times> state) outcome) \<Rightarrow> (string \<Rightarrow> bool) \<Rightarrow> env \<Rightarrow>
   entry option \<Rightarrow> bool \<Rightarrow> bool \<Rightarrow> state \<Rightarrow> ((open_error + archive) \<times> state) outcome" where
  "openArchive_entry_with add ends_pod env entry manage silent s =
     (case entry of
        None \<Rightarrow> Returns (Inl NullEntry, s)
      | Some e \<Rightarrow>
          (case entry_already_open s (open_archives s) e of
             Some ar \<Rightarrow> Returns (Inr ar, announce_opened silent ar s)
           | None \<Rightarrow>
               (case detect_entry ends_pod env e of
                  None \<Rightarrow> Returns (Inl UnsupportedFormat, s)
                | Some fmt \<Rightarrow>
                    if openEntry env fmt e
                    then
                      let (new_archive, s1) = instantiate fmt None (Some e) s in
                      if manage
                      then
                        let index_parent = (case entryParent env e of
                                              Some p \<Rightarrow> archiveIndex p s1
                                            | None \<Rightarrow> -1);
                            s2 = (if index_parent \<ge> 0
                                  then s1\<lparr>open_archives := (open_archives s1)
                                         [nat index_parent :=
                                            (open_archives s1 ! nat index_parent)
                                              \<lparr>open_children :=
                                                 open_children (open_archives s1 ! nat index_parent)
                                                   @ [new_archive]\<rparr>]\<rparr>
                                  else s1)
                        in case add (Some new_archive) s2 of
                             Returns r \<Rightarrow>
                               Returns (Inr new_archive, announce_opened silent new_archive (snd r))
                           | OutOfFuel \<Rightarrow> OutOfFuel
                           | Undefined \<Rightarrow> Undefined
                      else Returns (Inr new_archive, s1)
                    else Returns (Inl LoadFailure, s))))"

text \<open>
  \<^verbatim>\<open>addArchive\<close>. With \<^verbatim>\<open>auto_open_wads_root\<close> set, the root entries of a zip or folder
  archive that are WADs are opened in turn, which adds further archives; the nesting
  is bounded by fuel.
\<close>

fun addArchive :: "nat \<Rightarrow> (string \<Rightarrow> bool) \<Rightarrow> env \<Rightarrow> archive option \<Rightarrow> state \<Rightarrow> (bool \<times> state) outcome" where
  "addArchive 0 ends_pod env ar s = OutOfFuel"
| "addArchive (Suc fuel) ends_pod env None s = Returns (False, s)"
| "addArchive (Suc fuel) ends_pod env (Some ar) s =
     (let s1 = s\<lparr>open_archives := open_archives s
                  @ [\<lparr>archive = ar, resource = True, open_children = []\<rparr>]\<rparr>;
          s2 = call (ListenTo ar) s1;
          s3 = announce ''archive_added'' None s2;
          s4 = call (ResourceAdd ar) s3
      in
      if (formatId env (archiveFormat s4 ar) = ''zip'' \<or> formatId env (archiveFormat s4 ar) = ''folder'')
         \<and> auto_open_wads_root s4
      then
        (case for_each
                (\<lambda>e t.
                   let t1 = (if entryType t e = None
                             then t\<lparr>entryType := (entryType t)(e := detectEntryType env e)\<rparr>
                             else t)
                   in if entryType t1 e = Some ''wad''
                      then (case openArchive_entry_with (addArchive fuel ends_pod env) ends_pod env
                                   (Some e) True True t1 of
                              Returns r \<Rightarrow> Returns (snd r)
                            | OutOfFuel \<Rightarrow> OutOfFuel
                            | Undefined \<Rightarrow> Undefined)
                      else Returns t1)
                (allEntries env ar) s4 of
           Returns s5 \<Rightarrow> Returns (True, s5)
         | OutOfFuel \<Rightarrow> OutOfFuel
         | Undefined \<Rightarrow> Undefined)
      else Returns (True, s4))"

declare addArchive.simps [simp del]

definition openArchive_entry ::
  "nat \<Rightarrow> (string \<Rightarrow> bool) \<Rightarrow> env \<Rightarrow> entry option \<Rightarrow> bool \<Rightarrow> bool \<Rightarrow> state \<Rightarrow>
   ((open_error + archive) \<times> state) outcome" where
  "openArchive_entry fuel ends_pod env entry manage silent s =
     openArchive_entry_with (addArchive fuel ends_pod env) ends_pod env entry manage silent s"

text \<open>\<^verbatim>\<open>openDirArchive\<close>\<close>

definition openDirArchive ::
  "nat \<Rightarrow> (string \<Rightarrow> bool) \<Rightarrow> env \<Rightarrow> string \<Rightarrow> bool \<Rightarrow> bool \<Rightarrow> state \<Rightarrow>
   ((open_error + archive) \<times> state) outcome" where
  "openDirArchive fuel ends_pod env dir manage silent s =
     (case getArchive dir s of
        Some new_archive \<Rightarrow> Returns (Inr new_archive, announce_opened silent new_archive s)
      | None \<Rightarrow>
          if openFile env DirArchive dir
          then
            let (new_archive, s1) = instantiate DirArchive (Some dir) None s in
            if manage
            then (case addArchive fuel ends_pod env (Some new_archive) s1 of
                    Returns r \<Rightarrow>
                      Returns (Inr new_archive,
                        addRecentFile env dir (announce_opened silent new_archive (snd r)))
                  | OutOfFuel \<Rightarrow> OutOfFuel
                  | Undefined \<Rightarrow> Undefined)
            else Returns (Inr new_archive, s1)
          else Returns (Inl LoadFailure, s))"

text \<open>\<^verbatim>\<open>openArchive(const wxString& filename, bool manage, bool silent)\<close>\<close>

definition openArchive ::
  "nat \<Rightarrow> (string \<Rightarrow> bool) \<Rightarrow> env \<Rightarrow> string \<Rightarrow> bool \<Rightarrow> bool \<Rightarrow> state \<Rightarrow>
   ((open_error + archive) \<times> state) outcome" where
  "openArchive fuel ends_pod env filename manage silent s =
     (if \<not> fileExists env filename \<and> dirExists env filename
      then openDirArchive fuel ends_pod env filename manage silent s
      else
        case getArchive filename s of
          Some new_archive \<Rightarrow> Returns (Inr new_archive, announce_opened silent new_archive s)
        | None \<Rightarrow>
            (case detect_file env filename of
               None \<Rightarrow> Returns (Inl UnsupportedFormat, s)
             | Some fmt \<Rightarrow>
                 if openFile env fmt filename
                 then
                   let (new_archive, s1) = instantiate fmt (Some filename) None s in
                   if manage
                   then (case addArchive fuel ends_pod env (Some new_archive) s1 of
                           Returns r \<Rightarrow>
                             Returns (Inr new_archive,
                               addRecentFile env filename
                                 (announce_opened silent new_archive (snd r)))
                         | OutOfFuel \<Rightarrow> OutOfFuel
                         | Undefined \<Rightarrow> Undefined)
                   else Returns (Inr new_archive, s1)
                 else Returns (Inl LoadFailure, s)))"

text \<open>
  \<^verbatim>\<open>newArchive\<close>. The new object gets the next identity, with no parent entry; there
  is no \<^verbatim>\<open>open\<close>. The name in \<^verbatim>\<open>formatDesc()\<close> comes from the archive class; it is the
  parameter \<open>format_name\<close>. The result of \<^verbatim>\<open>addArchive\<close> is not looked at.
\<close>

definition newArchive ::
  "nat \<Rightarrow> (string \<Rightarrow> bool) \<Rightarrow> env \<Rightarrow> (format \<Rightarrow> string) \<Rightarrow> string \<Rightarrow> state \<Rightarrow>
   (archive option \<times> state) outcome" where
  "newArchive fuel ends_pod env format_name fmt s =
     (case (if fmt = ''wad'' then Some WadArchive
            else if fmt = ''zip'' then Some ZipArchive
            else None) of
        None \<Rightarrow> Returns (None, s)
      | Some cls \<Rightarrow>
          let (new_archive, s1) = instantiate cls None None s;
              s2 = s1\<lparr>archiveFilename :=
                       (archiveFilename s1)(new_archive := ''UNSAVED ('' @ format_name cls @ '')'')\<rparr>
          in case addArchive fuel ends_pod env (Some new_archive) s2 of
               Returns r \<Rightarrow> Returns (Some new_archive, snd r)
             | OutOfFuel \<Rightarrow> OutOfFuel
             | Undefined \<Rightarrow> Undefined)"

text \<open>
  The invariant of the manager: the registry invariant, and every registered archive
  is an object that \<^verbatim>\<open>new\<close> has handed out already.
\<close>

definition manager_ok :: "env \<Rightarrow> state \<Rightarrow> bool" where
  "manager_ok env s =
     (registry_ok (parent_archive env s) (open_archives s)
      \<and> (\<forall>oa \<in> set (open_archives s). archive oa < next_archive s))"

section \<open>Concrete worlds and states\<close>

text \<open>
  A world in which nothing exists, and the manager as it is constructed (no archive
  open, the configuration variables at their defaults). The examples below extend them.
\<close>

definition empty_env :: env where
  "empty_env =
     \<lparr>fileExists = (\<lambda>p. False), dirExists = (\<lambda>p. False),
      isArchiveFile = (\<lambda>f p. False), isArchiveData = (\<lambda>f e. False),
      openFile = (\<lambda>f p. False), openEntry = (\<lambda>f e. False),
      formatId = (\<lambda>f. []), allEntries = (\<lambda>a. []),
      detectEntryType = (\<lambda>e. None), entryName = (\<lambda>e. []),
      entryParent = (\<lambda>e. None), entryParentDir = (\<lambda>e. None),
      rootDir = (\<lambda>a. 0), nodeArchive = (\<lambda>n. 0), nodeDirEntry = (\<lambda>n. 0),
      nodeParent = (\<lambda>n. None),
      archiveEntry = (\<lambda>a n. None), findLast = (\<lambda>a q. None), findAll = (\<lambda>a q. [])\<rparr>"

definition initial_state :: state where
  "initial_state =
     \<lparr>open_archives = [], base_resource_archive = None, base_resource_paths = [],
      recent_files = [], bookmarks = [],
      base_resource = -1, max_recent_files = 25, auto_open_wads_root = False,
      muted = False, events = [],
      archiveFilename = (\<lambda>a. []), archiveFormat = (\<lambda>a. WadArchive),
      parentEntry = (\<lambda>a. None), entryType = (\<lambda>e. None),
      next_archive = 1\<rparr>"

text \<open>Two recent files, the second of which exists on disk.\<close>

definition recent_env :: env where
  "recent_env = empty_env\<lparr>fileExists := (\<lambda>p. p = ''b.wad'')\<rparr>"

definition recent_state :: state where
  "recent_state = initial_state\<lparr>recent_files := [''a.wad'', ''b.wad'']\<rparr>"

text \<open>
  Two base resource paths: a WAD that loads, and a text file that is no archive. The
  WAD is loaded as archive 7.
\<close>

definition base_env :: env where
  "base_env = empty_env
     \<lparr>fileExists := (\<lambda>p. p = ''doom.wad'' \<or> p = ''notes.txt''),
      isArchiveFile := (\<lambda>f p. f = WadArchive \<and> p = ''doom.wad''),
      openFile := (\<lambda>f p. f = WadArchive \<and> p = ''doom.wad''),
      archiveEntry := (\<lambda>a n. if a = 7 \<and> n = ''PLAYPAL'' then Some 70 else None),
      entryParent := (\<lambda>e. if e = 70 then Some 7 else None)\<rparr>"

definition base_state :: state where
  "base_state = initial_state
     \<lparr>base_resource_paths := [''doom.wad'', ''notes.txt''],
      base_resource_archive := Some 7,
      base_resource := 0,
      archiveFilename := (\<lambda>a. if a = 7 then ''doom.wad'' else []),
      next_archive := 8\<rparr>"

text \<open>
  A directory node 1 of archive 3 with directory entry 30; entry 31 lies in that
  directory; both are bookmarked.
\<close>

definition bookmark_env :: env where
  "bookmark_env = empty_env
     \<lparr>entryParent := (\<lambda>e. if e = 30 \<or> e = 31 then Some 3 else None),
      entryParentDir := (\<lambda>e. if e = 30 then Some 0 else if e = 31 then Some 1 else None),
      rootDir := (\<lambda>a. 0),
      nodeArchive := (\<lambda>n. 3),
      nodeDirEntry := (\<lambda>n. if n = 1 then 30 else 0),
      nodeParent := (\<lambda>n. if n = 1 then Some 0 else None)\<rparr>"

definition bookmark_state :: state where
  "bookmark_state = initial_state\<lparr>bookmarks := [30, 31]\<rparr>"

text \<open>
  Three open archives that all hold a resource \<^verbatim>\<open>MAP01\<close>: archive 1 is not used as a
  resource, archives 2 and 3 are; archive 7 is the base resource archive and holds it
  too.
\<close>

definition lookup_env :: env where
  "lookup_env = empty_env
     \<lparr>archiveEntry := (\<lambda>a n. if n = ''MAP01'' \<and> a \<in> {1, 2, 3, 7} then Some (10 * a) else None),
      findLast := (\<lambda>a q. if q = ''MAP01'' \<and> a \<in> {1, 2, 3, 7} then Some (10 * a) else None),
      findAll := (\<lambda>a q. if q = ''MAP01'' \<and> a \<in> {1, 2, 3, 7} then [10 * a] else []),
      entryParent := (\<lambda>e. if e \<in> {10, 20, 30, 70} then Some (e div 10) else None)\<rparr>"

definition lookup_state :: state where
  "lookup_state = initial_state
     \<lparr>open_archives :=
        [\<lparr>archive = 1, resource = False, open_children = []\<rparr>,
         \<lparr>archive = 2, resource = True, open_children = []\<rparr>,
         \<lparr>archive = 3, resource = True, open_children = []\<rparr>],
      base_resource_archive := Some 7,
      next_archive := 8\<rparr>"

text \<open>
  Four open archives: archive 2 was opened from entry 20 of archive 1, archive 3 from
  entry 30 of archive 2, archive 4 from a file. Entries 30 and 40 are bookmarked.
\<close>

definition nested_env :: env where
  "nested_env = empty_env
     \<lparr>entryParent := (\<lambda>e. if e = 20 then Some 1 else if e = 30 then Some 2
                           else if e = 40 then Some 4 else None)\<rparr>"

definition nested_state :: state where
  "nested_state = initial_state
     \<lparr>open_archives :=
        [\<lparr>archive = 1, resource = True, open_children = [2]\<rparr>,
         \<lparr>archive = 2, resource = True, open_children = [3]\<rparr>,
         \<lparr>archive = 3, resource = True, open_children = []\<rparr>,
         \<lparr>archive = 4, resource = True, open_children = []\<rparr>],
      bookmarks := [30, 40],
      parentEntry := (\<lambda>a. if a = 2 then Some 20 else if a = 3 then Some 30 else None),
      next_archive := 5\<rparr>"

text \<open>
  A WAD file that can be reached under two spellings of its path, with a slash and
  with a backslash, and a zip file whose root holds the WAD entry 50.
\<close>

definition slash_path :: string where
  "slash_path = ''d/a.wad''"

definition backslash_path :: string where
  "backslash_path = ''d'' @ [CHR 0x5C] @ ''a.wad''"

definition open_env :: env where
  "open_env = empty_env
     \<lparr>fileExists := (\<lambda>p. p = slash_path \<or> p = backslash_path \<or> p = ''m.pk3'' \<or> p = ''notes.txt''),
      isArchiveFile := (\<lambda>f p. (f = WadArchive \<and> (p = slash_path \<or> p = backslash_path))
                            \<or> (f = ZipArchive \<and> p = ''m.pk3'')),
      openFile := (\<lambda>f p. (f = WadArchive \<and> (p = slash_path \<or> p = backslash_path))
                       \<or> (f = ZipArchive \<and> p = ''m.pk3'')),
      formatId := (\<lambda>f. if f = ZipArchive then ''zip'' else if f = DirArchive then ''folder''
                        else if f = WadArchive then ''wad'' else ''other''),
      allEntries := (\<lambda>a. if a = 1 then [50] else []),
      detectEntryType := (\<lambda>e. if e = 50 then Some ''wad'' else None),
      entryParent := (\<lambda>e. if e = 50 then Some 1 else None),
      isArchiveData := (\<lambda>f e. f = WadArchive \<and> e = 50),
      openEntry := (\<lambda>f e. f = WadArchive \<and> e = 50)\<rparr>"

text \<open>The manager after the WAD has been opened under its path with a slash.\<close>

definition opened_state :: state where
  "opened_state = initial_state
     \<lparr>open_archives := [\<lparr>archive = 1, resource = True, open_children = []\<rparr>],
      recent_files := [slash_path],
      events := [ListenTo 1, Announce ''archive_added'' None, ResourceAdd 1,
                 Announce ''archive_opened'' (Some 0), Announce ''recent_files_changed'' None],
      archiveFilename := (archiveFilename initial_state)(1 := slash_path),
      archiveFormat := (archiveFormat initial_state)(1 := WadArchive),
      parentEntry := (parentEntry initial_state)(1 := None),
      next_archive := 2\<rparr>"



section \<open>Verification: recent files\<close>

lemma first_index_None: "first_index xs x i = None \<longleftrightarrow> x \<notin> set xs"
  by (induction xs arbitrary: i) auto

lemma first_index_Some:
  "first_index xs x i = Some a \<Longrightarrow> i \<le> a \<and> x \<in> set xs \<and> erase_at (a - i) xs = remove1 x xs"
proof (induction xs arbitrary: i)
  case Nil
  then show ?case by simp
next
  case (Cons y ys)
  show ?case
  proof (cases "y = x")
    case True
    with Cons.prems show ?thesis by (simp add: erase_at_def)
  next
    case False
    with Cons.prems have r: "first_index ys x (Suc i) = Some a" by simp
    from Cons.IH [OF r] have ih: "Suc i \<le> a" "x \<in> set ys" "erase_at (a - Suc i) ys = remove1 x ys"
      by simp_all
    from ih(1) have "a - i = Suc (a - Suc i)" by simp
    with ih False show ?thesis by (simp add: erase_at_def)
  qed
qed

lemma trim_recent_take: "trim_recent m xs = take m xs"
proof (induction m xs rule: trim_recent.induct)
  case (1 m xs)
  show ?case
  proof (cases "length xs > m")
    case True
    with 1 have "trim_recent m xs = take m (butlast xs)" by (subst trim_recent.simps) simp
    also have "\<dots> = take m xs" using True by (simp add: butlast_conv_take)
    finally show ?thesis .
  next
    case False
    then show ?thesis by (subst trim_recent.simps) simp
  qed
qed

lemma to_unsigned_le: "0 \<le> m \<Longrightarrow> int (to_unsigned m) \<le> m"
proof -
  have "m mod 2 ^ 32 \<le> m" if "0 \<le> m" using that by (rule zmod_le_nonneg_dividend)
  then show "0 \<le> m \<Longrightarrow> int (to_unsigned m) \<le> m" unfolding to_unsigned_def by simp
qed

lemma addRecentFile_recent:
  "recent_files (addRecentFile env path0 s) =
     (if \<not> (fileExists env path0 \<or> dirExists env path0) then recent_files s
      else if replace_backslash path0 \<in> set (recent_files s)
      then replace_backslash path0 # remove1 (replace_backslash path0) (recent_files s)
      else take (to_unsigned (max_recent_files s)) (replace_backslash path0 # recent_files s))"
proof (cases "first_index (recent_files s) (replace_backslash path0) 0")
  case None
  then have "replace_backslash path0 \<notin> set (recent_files s)" by (simp add: first_index_None)
  with None show ?thesis
    by (simp add: addRecentFile_def announce_def trim_recent_take Let_def)
next
  case (Some a)
  from first_index_Some [OF Some] show ?thesis using Some
    by (simp add: addRecentFile_def announce_def Let_def)
qed

lemma addRecentFile_max [simp]: "max_recent_files (addRecentFile env path0 s) = max_recent_files s"
  by (simp add: addRecentFile_def announce_def Let_def split: option.splits)

lemma addRecentFile_ok:
  assumes "0 \<le> max_recent_files s" and "recent_files_ok s"
  shows "recent_files_ok (addRecentFile env path0 s)"
proof -
  let ?p = "replace_backslash path0"
  have len: "?p \<in> set (recent_files s) \<Longrightarrow> length (remove1 ?p (recent_files s)) = length (recent_files s) - 1"
    by (simp add: length_remove1)
  have pos: "?p \<in> set (recent_files s) \<Longrightarrow> 0 < length (recent_files s)"
    by (cases "recent_files s") auto
  have tk: "int (length (take (to_unsigned (max_recent_files s)) (?p # recent_files s))) \<le> max_recent_files s"
    using to_unsigned_le [OF assms(1)] by simp
  have d: "?p \<notin> set (recent_files s) \<Longrightarrow> distinct (take (to_unsigned (max_recent_files s)) (?p # recent_files s))"
    using assms(2) by (intro distinct_take) (simp add: recent_files_ok_def)
  show ?thesis
    unfolding recent_files_ok_def addRecentFile_recent addRecentFile_max
    using assms(2) len pos tk d by (auto simp: recent_files_ok_def)
qed

lemma addRecentFile_each_ok:
  "0 \<le> max_recent_files s \<Longrightarrow> recent_files_ok s \<Longrightarrow> recent_files_ok (addRecentFile_each env paths s)"
  by (induction paths arbitrary: s) (simp_all add: addRecentFile_ok)

lemma addRecentFile_each_max [simp]:
  "max_recent_files (addRecentFile_each env paths s) = max_recent_files s"
  by (induction paths arbitrary: s) simp_all

lemma addRecentFiles_ok:
  assumes "0 \<le> max_recent_files s"
  shows "recent_files_ok (addRecentFiles env paths s)"
proof -
  let ?s2 = "(setMuted True s)\<lparr>recent_files := []\<rparr>"
  have "recent_files_ok ?s2" using assms by (simp add: recent_files_ok_def setMuted_def)
  moreover have "0 \<le> max_recent_files ?s2" using assms by (simp add: setMuted_def)
  ultimately have "recent_files_ok (addRecentFile_each env paths ?s2)"
    by (rule addRecentFile_each_ok [rotated])
  then show ?thesis
    by (simp add: addRecentFiles_def Let_def recent_files_ok_def setMuted_def announce_def)
qed

lemma removeRecentFile_ok:
  assumes "recent_files_ok s"
  shows "recent_files_ok (removeRecentFile path s)"
proof (cases "first_index (recent_files s) path 0")
  case None
  then show ?thesis using assms by (simp add: removeRecentFile_def)
next
  case (Some a)
  from first_index_Some [OF Some] have "erase_at a (recent_files s) = remove1 path (recent_files s)"
    by simp
  moreover have "length (remove1 path (recent_files s)) \<le> length (recent_files s)"
    by (simp add: length_remove1)
  ultimately show ?thesis using assms Some
    by (simp add: removeRecentFile_def recent_files_ok_def announce_def)
qed

text \<open>
  C8, as stated, fails in its last part: \<^verbatim>\<open>addRecentFile\<close> first tests that the path
  exists as a file or as a directory, and returns if it does not. A path that is in the
  list, but whose file is gone, is not moved to the front when it is touched.
\<close>

theorem addRecentFile_listed_path_not_moved:
  "recent_files recent_state = [''a.wad'', ''b.wad'']
   \<and> recent_files (addRecentFile empty_env ''b.wad'' recent_state) = [''a.wad'', ''b.wad'']
   \<and> hd (recent_files (addRecentFile empty_env ''b.wad'' recent_state)) = ''a.wad''"
  by (simp add: addRecentFile_def empty_env_def recent_state_def initial_state_def)

text \<open>
  C8, amended. With a non-negative configured maximum, every operation on the recent-file
  list (\<^verbatim>\<open>addRecentFile\<close>, \<^verbatim>\<open>removeRecentFile\<close>, \<^verbatim>\<open>addRecentFiles\<close>) keeps the list within
  the maximum and free of duplicates; touching a path that exists as a file or as a
  directory and is already in the list (in its form with slashes) moves it to the front
  and leaves the length as it was; touching a path that exists neither as a file nor as
  a directory leaves the list as it is, whether the path is in it or not.
\<close>

theorem recent_files_bounded_distinct:
  assumes "0 \<le> max_recent_files s" and "recent_files_ok s"
  shows "recent_files_ok (addRecentFile env path s)
       \<and> recent_files_ok (removeRecentFile path s)
       \<and> recent_files_ok (addRecentFiles env paths s)
       \<and> ((fileExists env path \<or> dirExists env path) \<and> replace_backslash path \<in> set (recent_files s) \<longrightarrow>
            recent_files (addRecentFile env path s)
              = replace_backslash path # remove1 (replace_backslash path) (recent_files s)
          \<and> length (recent_files (addRecentFile env path s)) = length (recent_files s))
       \<and> (\<not> fileExists env path \<and> \<not> dirExists env path \<longrightarrow>
            recent_files (addRecentFile env path s) = recent_files s)"
proof (intro conjI impI)
  show "recent_files_ok (addRecentFile env path s)" by (rule addRecentFile_ok [OF assms])
  show "recent_files_ok (removeRecentFile path s)" by (rule removeRecentFile_ok [OF assms(2)])
  show "recent_files_ok (addRecentFiles env paths s)" by (rule addRecentFiles_ok [OF assms(1)])
next
  assume a: "(fileExists env path \<or> dirExists env path) \<and> replace_backslash path \<in> set (recent_files s)"
  then show "recent_files (addRecentFile env path s)
              = replace_backslash path # remove1 (replace_backslash path) (recent_files s)"
    by (simp only: addRecentFile_recent) simp
next
  assume a: "(fileExists env path \<or> dirExists env path) \<and> replace_backslash path \<in> set (recent_files s)"
  then have r: "recent_files (addRecentFile env path s)
              = replace_backslash path # remove1 (replace_backslash path) (recent_files s)"
    by (simp only: addRecentFile_recent) simp
  have "0 < length (recent_files s)" using a length_pos_if_in_set by fastforce
  then show "length (recent_files (addRecentFile env path s)) = length (recent_files s)"
    using a by (simp only: r) (simp add: length_remove1)
next
  assume "\<not> fileExists env path \<and> \<not> dirExists env path"
  then show "recent_files (addRecentFile env path s) = recent_files s"
    by (simp add: addRecentFile_def)
qed

theorem recent_files_bounded_distinct_witness:
  "0 \<le> max_recent_files recent_state \<and> recent_files_ok recent_state
   \<and> fileExists recent_env ''b.wad''
   \<and> recent_files_ok (addRecentFile recent_env ''b.wad'' recent_state)
   \<and> recent_files_ok (removeRecentFile ''b.wad'' recent_state)
   \<and> recent_files_ok (addRecentFiles recent_env [''b.wad'', ''b.wad''] recent_state)
   \<and> recent_files (addRecentFile recent_env ''b.wad'' recent_state) = [''b.wad'', ''a.wad'']
   \<and> length (recent_files (addRecentFile recent_env ''b.wad'' recent_state)) = 2
   \<and> \<not> fileExists recent_env ''a.wad'' \<and> \<not> dirExists recent_env ''a.wad''
   \<and> recent_files (addRecentFile recent_env ''a.wad'' recent_state) = [''a.wad'', ''b.wad'']"
proof -
  have h: "0 \<le> max_recent_files recent_state" "recent_files_ok recent_state"
    by (simp_all add: recent_state_def initial_state_def recent_files_ok_def)
  have e: "fileExists recent_env ''b.wad''" "replace_backslash ''b.wad'' = ''b.wad''"
    "recent_files recent_state = [''a.wad'', ''b.wad'']"
    by (simp_all add: recent_env_def empty_env_def replace_backslash_def recent_state_def
        initial_state_def)
  have m: "\<not> fileExists recent_env ''a.wad'' \<and> \<not> dirExists recent_env ''a.wad''"
    by (simp add: recent_env_def empty_env_def)
  note gone = recent_files_bounded_distinct [OF h, of recent_env "''a.wad''" "[]",
      THEN conjunct2, THEN conjunct2, THEN conjunct2, THEN conjunct2, THEN mp, OF m]
  from recent_files_bounded_distinct [OF h, of recent_env "''b.wad''" "[''b.wad'', ''b.wad'']"]
  show ?thesis using h e m gone by simp
qed

text \<open>
  C10. For a path that is neither an existing file nor an existing directory,
  \<^verbatim>\<open>addRecentFile\<close> changes nothing: the list, the announcements and every other part of
  the state stay as they were.
\<close>

theorem addRecentFile_missing_path:
  "\<not> fileExists env path \<Longrightarrow> \<not> dirExists env path \<Longrightarrow> addRecentFile env path s = s"
  by (simp add: addRecentFile_def)

theorem addRecentFile_missing_path_witness:
  "\<not> fileExists recent_env ''c.wad'' \<and> \<not> dirExists recent_env ''c.wad''
   \<and> addRecentFile recent_env ''c.wad'' recent_state = recent_state"
proof -
  have h: "\<not> fileExists recent_env ''c.wad''" "\<not> dirExists recent_env ''c.wad''"
    by (simp_all add: recent_env_def empty_env_def)
  from addRecentFile_missing_path [OF h] h show ?thesis by simp
qed

section \<open>Verification: base resource\<close>

lemma cast_unsigned_eq:
  "- (2 ^ 31) \<le> b \<Longrightarrow> b < 2 ^ 31 \<Longrightarrow> index < 2 ^ 31 \<Longrightarrow> (index = to_unsigned b) = (b = int index)"
proof (cases "0 \<le> b")
  case True
  assume "b < 2 ^ 31"
  with True have "b mod 2 ^ 32 = b" by simp
  with True show ?thesis by (auto simp: to_unsigned_def)
next
  case False
  assume a: "- (2 ^ 31) \<le> b" "index < 2 ^ 31"
  from False a have "(b + 2 ^ 32) mod 2 ^ 32 = b + 2 ^ 32"
    by (intro mod_pos_pos_trivial) simp_all
  moreover have "(b + 2 ^ 32) mod 2 ^ 32 = b mod 2 ^ 32"
    by (rule mod_add_self2)
  ultimately have m: "b mod 2 ^ 32 = b + 2 ^ 32" by simp
  have p: "(2::int) ^ 32 = 4294967296" "(2::int) ^ 31 = 2147483648" "(2::nat) ^ 31 = 2147483648"
    by simp_all
  from False a have "int index \<noteq> b" "index \<noteq> nat (b + 2 ^ 32)" unfolding p by linarith+
  then show ?thesis unfolding to_unsigned_def m by auto
qed

lemma cast_signed_id: "index < 2 ^ 31 \<Longrightarrow> to_signed index = int index"
  by (simp add: to_signed_def Let_def)

lemma nth_erase_at_after:
  "index < j \<Longrightarrow> j < length xs \<Longrightarrow> erase_at index xs ! (j - 1) = xs ! j"
  by (cases j) (auto simp: erase_at_def nth_append min_def)


lemma openBaseResource_unload:
  "base_resource s \<noteq> -1 \<or> base_resource_archive s = None \<Longrightarrow>
   base_resource_archive (snd (openBaseResource env (-1) s)) = None
   \<and> base_resource (snd (openBaseResource env (-1) s)) = -1
   \<and> base_resource_paths (snd (openBaseResource env (-1) s)) = base_resource_paths s"
  by (auto simp: openBaseResource_def announce_def call_def Let_def split: option.splits)

text \<open>
  C9. \<^verbatim>\<open>removeBaseResourcePath\<close> at a valid index: when the removed path is the active
  selection, the call is \<^verbatim>\<open>openBaseResource(-1)\<close> followed by the removal, so no base
  archive is loaded afterwards and the remembered index is -1; when the removed path
  precedes the active selection, the remembered index goes down by one, the loaded
  archive stays, and the index still denotes the path it denoted before.
\<close>

theorem removeBaseResourcePath_selection:
  assumes "index < length (base_resource_paths s)" and "index < 2 ^ 31"
    and "- (2 ^ 31) \<le> base_resource s" and "base_resource s < 2 ^ 31"
  shows "(base_resource s = int index \<longrightarrow>
            removeBaseResourcePath env index s
              = announce ''base_resource_path_removed'' None
                  ((snd (openBaseResource env (-1) s))
                     \<lparr>base_resource_paths := erase_at index (base_resource_paths s)\<rparr>)
            \<and> base_resource_archive (removeBaseResourcePath env index s) = None
            \<and> base_resource (removeBaseResourcePath env index s) = -1)
       \<and> (int index < base_resource s \<longrightarrow>
            base_resource (removeBaseResourcePath env index s) = base_resource s - 1
            \<and> base_resource_archive (removeBaseResourcePath env index s) = base_resource_archive s
            \<and> (nat (base_resource s) < length (base_resource_paths s) \<longrightarrow>
                 base_resource_paths (removeBaseResourcePath env index s)
                     ! nat (base_resource (removeBaseResourcePath env index s))
                   = base_resource_paths s ! nat (base_resource s)))"
proof (intro conjI impI)
  assume a: "base_resource s = int index"
  then have t: "index = to_unsigned (base_resource s)"
    using cast_unsigned_eq [OF assms(3,4,2)] by simp
  from a have "base_resource s \<noteq> -1 \<or> base_resource_archive s = None" by simp
  note u = openBaseResource_unload [OF this, of env]
  from t assms(1) u show "removeBaseResourcePath env index s
              = announce ''base_resource_path_removed'' None
                  ((snd (openBaseResource env (-1) s))
                     \<lparr>base_resource_paths := erase_at index (base_resource_paths s)\<rparr>)"
    by (simp add: removeBaseResourcePath_def Let_def)
  from t assms(1) u show "base_resource_archive (removeBaseResourcePath env index s) = None"
    by (simp add: removeBaseResourcePath_def Let_def announce_def)
  from t assms(1) u show "base_resource (removeBaseResourcePath env index s) = -1"
    by (simp add: removeBaseResourcePath_def Let_def announce_def)
next
  assume a: "int index < base_resource s"
  then have t: "index \<noteq> to_unsigned (base_resource s)"
    using cast_unsigned_eq [OF assms(3,4,2)] by simp
  have g: "to_signed index < base_resource s" using a cast_signed_id [OF assms(2)] by simp
  from t g assms(1) show "base_resource (removeBaseResourcePath env index s) = base_resource s - 1"
    by (simp add: removeBaseResourcePath_def Let_def announce_def)
  from t g assms(1) show "base_resource_archive (removeBaseResourcePath env index s) = base_resource_archive s"
    by (simp add: removeBaseResourcePath_def Let_def announce_def)
  assume b: "nat (base_resource s) < length (base_resource_paths s)"
  from a have c: "index < nat (base_resource s)" "nat (base_resource s - 1) = nat (base_resource s) - 1"
    by linarith+
  from t g assms(1) show "base_resource_paths (removeBaseResourcePath env index s)
                     ! nat (base_resource (removeBaseResourcePath env index s))
                   = base_resource_paths s ! nat (base_resource s)"
    using nth_erase_at_after [OF c(1) b] c(2)
    by (simp add: removeBaseResourcePath_def Let_def announce_def)
qed

theorem removeBaseResourcePath_selection_witness:
  "(0::nat) < length (base_resource_paths (base_state\<lparr>base_resource := 1\<rparr>))
   \<and> base_resource (removeBaseResourcePath base_env 0 (base_state\<lparr>base_resource := 1\<rparr>)) = 0
   \<and> base_resource_archive (removeBaseResourcePath base_env 0 (base_state\<lparr>base_resource := 1\<rparr>)) = Some 7
   \<and> base_resource_paths (removeBaseResourcePath base_env 0 (base_state\<lparr>base_resource := 1\<rparr>)) ! 0 = ''notes.txt''
   \<and> base_resource_archive (removeBaseResourcePath base_env 0 base_state) = None
   \<and> base_resource (removeBaseResourcePath base_env 0 base_state) = -1"
proof -
  let ?s = "base_state\<lparr>base_resource := 1\<rparr>"
  have h: "(0::nat) < length (base_resource_paths ?s)" "(0::nat) < 2 ^ 31"
    "- (2 ^ 31) \<le> base_resource ?s" "base_resource ?s < 2 ^ 31"
    by (simp_all add: base_state_def initial_state_def)
  have k: "(0::nat) < length (base_resource_paths base_state)" "(0::nat) < 2 ^ 31"
    "- (2 ^ 31) \<le> base_resource base_state" "base_resource base_state < 2 ^ 31"
    by (simp_all add: base_state_def initial_state_def)
  have a: "int 0 < base_resource ?s" "nat (base_resource ?s) < length (base_resource_paths ?s)"
    by (simp_all add: base_state_def initial_state_def)
  have b: "base_resource base_state = int 0"
    by (simp add: base_state_def initial_state_def)
  have v: "base_resource_archive ?s = Some 7"
    "base_resource_paths ?s ! nat (base_resource ?s) = ''notes.txt''"
    by (simp_all add: base_state_def initial_state_def)
  note first = removeBaseResourcePath_selection [OF h, of base_env, THEN conjunct2, rule_format, OF a(1)]
  note second = removeBaseResourcePath_selection [OF k, of base_env, THEN conjunct1, rule_format, OF b,
      THEN conjunct2]
  from first have f1: "base_resource (removeBaseResourcePath base_env 0 ?s) = 0"
    by (simp add: base_state_def initial_state_def)
  from first v(1) have f2: "base_resource_archive (removeBaseResourcePath base_env 0 ?s) = Some 7"
    by simp
  from first [THEN conjunct2, THEN conjunct2, rule_format, OF a(2)] v(2)
  have f3: "base_resource_paths (removeBaseResourcePath base_env 0 ?s) ! 0 = ''notes.txt''"
    unfolding f1 by simp
  from h(1) f1 f2 f3 second show ?thesis by blast
qed

text \<open>
  C5. \<^verbatim>\<open>openBaseResource\<close> on a valid index whose file is neither a WAD nor a ZIP: the
  loaded base archive (archive 7) is unloaded, the call returns false, and no
  \<^verbatim>\<open>base_resource_changed\<close> is announced.
\<close>

theorem openBaseResource_unsupported_silent:
  "openBaseResource base_env 1 base_state
     = (False, base_state\<lparr>base_resource_archive := None, events := [ResourceRemove 7]\<rparr>)
   \<and> announced ''base_resource_changed''
        (events (snd (openBaseResource base_env 1 base_state))) = 0"
  by (simp add: openBaseResource_def base_env_def base_state_def empty_env_def
      initial_state_def call_def announce_def to_unsigned_def announced_def)


section \<open>Verification: resource lookup\<close>

lemma getResourceEntry_open_find:
  "getResourceEntry_open env rs name ignore =
     (case find (\<lambda>oa. archiveEntry env (archive oa) name \<noteq> None)
             (filter (\<lambda>oa. resource oa \<and> Some (archive oa) \<noteq> ignore) rs) of
        Some oa \<Rightarrow> archiveEntry env (archive oa) name
      | None \<Rightarrow> None)"
  by (induction rs) (auto split: option.splits)

lemma findResourceEntry_open_find:
  "findResourceEntry_open env rs options ignore =
     (case find (\<lambda>oa. findLast env (archive oa) options \<noteq> None)
             (filter (\<lambda>oa. resource oa \<and> Some (archive oa) \<noteq> ignore) rs) of
        Some oa \<Rightarrow> findLast env (archive oa) options
      | None \<Rightarrow> None)"
  by (induction rs) (auto split: option.splits)

lemma findAllResourceEntries_open_concat:
  "findAllResourceEntries_open env rs options ignore ret =
     ret @ concat (map (\<lambda>oa. findAll env (archive oa) options)
                     (filter (\<lambda>oa. resource oa \<and> Some (archive oa) \<noteq> ignore) rs))"
  by (induction rs arbitrary: ret) auto

text \<open>
  C2. \<^verbatim>\<open>getResourceEntry\<close> and \<^verbatim>\<open>findResourceEntry\<close> return the match of the first
  eligible open archive that has one, in registration order, and consult the base
  resource archive only when no eligible open archive has a match;
  \<^verbatim>\<open>findAllResourceEntries\<close> returns the matches of the base resource archive first,
  followed by those of the eligible open archives in registration order.
\<close>

theorem resource_search_orders:
  "getResourceEntry env name ignore s =
     (case find (\<lambda>oa. archiveEntry env (archive oa) name \<noteq> None) (eligible ignore s) of
        Some oa \<Rightarrow> archiveEntry env (archive oa) name
      | None \<Rightarrow> (case base_resource_archive s of
                   Some b \<Rightarrow> archiveEntry env b name
                 | None \<Rightarrow> None))
   \<and> findResourceEntry env options ignore s =
     (case find (\<lambda>oa. findLast env (archive oa) options \<noteq> None) (eligible ignore s) of
        Some oa \<Rightarrow> findLast env (archive oa) options
      | None \<Rightarrow> (case base_resource_archive s of
                   Some b \<Rightarrow> findLast env b options
                 | None \<Rightarrow> None))
   \<and> findAllResourceEntries env options ignore s =
     (case base_resource_archive s of Some b \<Rightarrow> findAll env b options | None \<Rightarrow> [])
       @ concat (map (\<lambda>oa. findAll env (archive oa) options) (eligible ignore s))"
proof (intro conjI)
  show "getResourceEntry env name ignore s =
     (case find (\<lambda>oa. archiveEntry env (archive oa) name \<noteq> None) (eligible ignore s) of
        Some oa \<Rightarrow> archiveEntry env (archive oa) name
      | None \<Rightarrow> (case base_resource_archive s of
                   Some b \<Rightarrow> archiveEntry env b name
                 | None \<Rightarrow> None))"
    unfolding getResourceEntry_def getResourceEntry_open_find eligible_def
    by (auto split: option.splits dest: find_Some_iff [THEN iffD1])
  show "findResourceEntry env options ignore s =
     (case find (\<lambda>oa. findLast env (archive oa) options \<noteq> None) (eligible ignore s) of
        Some oa \<Rightarrow> findLast env (archive oa) options
      | None \<Rightarrow> (case base_resource_archive s of
                   Some b \<Rightarrow> findLast env b options
                 | None \<Rightarrow> None))"
    unfolding findResourceEntry_def findResourceEntry_open_find eligible_def
    by (auto split: option.splits dest: find_Some_iff [THEN iffD1])
  show "findAllResourceEntries env options ignore s =
     (case base_resource_archive s of Some b \<Rightarrow> findAll env b options | None \<Rightarrow> [])
       @ concat (map (\<lambda>oa. findAll env (archive oa) options) (eligible ignore s))"
    unfolding findAllResourceEntries_def findAllResourceEntries_open_concat eligible_def Let_def
    by (simp split: option.splits)
qed

lemma getResourceEntry_open_Some:
  "getResourceEntry_open env rs name ignore = Some e \<Longrightarrow>
   \<exists>oa \<in> set rs. resource oa \<and> Some (archive oa) \<noteq> ignore \<and> archiveEntry env (archive oa) name = Some e"
  by (induction rs) (auto split: if_splits option.splits)

lemma findResourceEntry_open_Some:
  "findResourceEntry_open env rs options ignore = Some e \<Longrightarrow>
   \<exists>oa \<in> set rs. resource oa \<and> Some (archive oa) \<noteq> ignore \<and> findLast env (archive oa) options = Some e"
  by (induction rs) (auto split: if_splits option.splits)

text \<open>
  C6, as stated, fails: with the base resource archive 7 as the archive to ignore,
  \<^verbatim>\<open>getResourceEntry\<close> returns entry 70, which belongs to archive 7.
\<close>

theorem lookup_base_ignores_excluding:
  "base_resource_archive base_state = Some 7
   \<and> getResourceEntry base_env ''PLAYPAL'' (Some 7) base_state = Some 70
   \<and> entryParent base_env 70 = Some 7"
  by (simp add: getResourceEntry_def base_env_def base_state_def empty_env_def initial_state_def)

text \<open>
  C6, amended. An entry returned by \<^verbatim>\<open>getResourceEntry\<close> or \<^verbatim>\<open>findResourceEntry\<close> was found
  either in a registry record whose resource flag is set and whose archive is not the
  one to ignore, or in the base resource archive (which is searched whatever the
  archive to ignore is).
\<close>

theorem lookup_from_eligible_or_base:
  "(getResourceEntry env name ignore s = Some e \<longrightarrow>
      (\<exists>oa \<in> set (open_archives s).
          resource oa \<and> Some (archive oa) \<noteq> ignore \<and> archiveEntry env (archive oa) name = Some e)
      \<or> (\<exists>b. base_resource_archive s = Some b \<and> archiveEntry env b name = Some e))
   \<and> (findResourceEntry env options ignore s = Some e \<longrightarrow>
      (\<exists>oa \<in> set (open_archives s).
          resource oa \<and> Some (archive oa) \<noteq> ignore \<and> findLast env (archive oa) options = Some e)
      \<or> (\<exists>b. base_resource_archive s = Some b \<and> findLast env b options = Some e))"
proof (intro conjI impI)
  assume a: "getResourceEntry env name ignore s = Some e"
  show "(\<exists>oa \<in> set (open_archives s).
          resource oa \<and> Some (archive oa) \<noteq> ignore \<and> archiveEntry env (archive oa) name = Some e)
      \<or> (\<exists>b. base_resource_archive s = Some b \<and> archiveEntry env b name = Some e)"
  proof (cases "getResourceEntry_open env (open_archives s) name ignore")
    case None
    with a show ?thesis by (auto simp: getResourceEntry_def split: option.splits)
  next
    case (Some e')
    with a have "e' = e" by (simp add: getResourceEntry_def)
    with Some getResourceEntry_open_Some show ?thesis by blast
  qed
next
  assume a: "findResourceEntry env options ignore s = Some e"
  show "(\<exists>oa \<in> set (open_archives s).
          resource oa \<and> Some (archive oa) \<noteq> ignore \<and> findLast env (archive oa) options = Some e)
      \<or> (\<exists>b. base_resource_archive s = Some b \<and> findLast env b options = Some e)"
  proof (cases "findResourceEntry_open env (open_archives s) options ignore")
    case None
    with a show ?thesis by (auto simp: findResourceEntry_def split: option.splits)
  next
    case (Some e')
    with a have "e' = e" by (simp add: findResourceEntry_def)
    with Some findResourceEntry_open_Some show ?thesis by blast
  qed
qed

theorem lookup_from_eligible_or_base_witness:
  "getResourceEntry lookup_env ''MAP01'' (Some 2) lookup_state = Some 30
   \<and> findResourceEntry lookup_env ''MAP01'' (Some 2) lookup_state = Some 30
   \<and> ((\<exists>oa \<in> set (open_archives lookup_state).
          resource oa \<and> Some (archive oa) \<noteq> Some 2 \<and> archiveEntry lookup_env (archive oa) ''MAP01'' = Some 30)
      \<or> (\<exists>b. base_resource_archive lookup_state = Some b \<and> archiveEntry lookup_env b ''MAP01'' = Some 30))"
proof -
  have g: "getResourceEntry lookup_env ''MAP01'' (Some 2) lookup_state = Some 30"
    by (simp add: getResourceEntry_def lookup_env_def lookup_state_def empty_env_def
        initial_state_def)
  have f: "findResourceEntry lookup_env ''MAP01'' (Some 2) lookup_state = Some 30"
    by (simp add: findResourceEntry_def lookup_env_def lookup_state_def empty_env_def
        initial_state_def)
  from lookup_from_eligible_or_base [of lookup_env "''MAP01''" "Some 2" lookup_state 30 "''MAP01''"] g f
  show ?thesis by blast
qed


section \<open>Verification: bookmarks\<close>

text \<open>
  C7. \<^verbatim>\<open>deleteBookmarksInDir\<close> on directory node 1, whose own entry 30 is bookmarked:
  the bookmarks inside the directory are removed by one call, and
  \<^verbatim>\<open>bookmarks_changed\<close> is announced twice (once by \<^verbatim>\<open>deleteBookmark\<close> for the
  directory entry, once at the end), also when entry 30 is the only bookmark.
\<close>

theorem deleteBookmarksInDir_announces_twice:
  "deleteBookmarksInDir 2 bookmark_env 1 bookmark_state
     = Returns (True, bookmark_state
         \<lparr>bookmarks := [],
          events := [Announce ''bookmarks_changed'' None, Announce ''bookmarks_changed'' None]\<rparr>)
   \<and> deleteBookmarksInDir 2 bookmark_env 1 (bookmark_state\<lparr>bookmarks := [30]\<rparr>)
     = Returns (True, bookmark_state
         \<lparr>bookmarks := [],
          events := [Announce ''bookmarks_changed'' None, Announce ''bookmarks_changed'' None]\<rparr>)"
  by (simp add: deleteBookmarksInDir_def deleteBookmark_def bookmark_env_def bookmark_state_def
      empty_env_def initial_state_def announce_def erase_at_def numeral_2_eq_2)


section \<open>Verification: closing archives\<close>

subsection \<open>Positions, the registry invariant, subtrees\<close>

lemma archiveIndex_from_eq:
  "archiveIndex_from rs k ar =
     (if ar \<in> archive ` set rs then int (k + position rs ar) else -1)"
  by (induction rs arbitrary: k) (auto simp: position_def)

lemma archiveIndex_eq:
  "archiveIndex ar s =
     (if ar \<in> archive ` set (open_archives s) then int (position (open_archives s) ar) else -1)"
  by (simp add: archiveIndex_def archiveIndex_from_eq)

lemma position_less: "ar \<in> archive ` set rs \<Longrightarrow> position rs ar < length rs"
  unfolding position_def by (induction rs) auto

lemma position_nth: "ar \<in> archive ` set rs \<Longrightarrow> archive (rs ! position rs ar) = ar"
  unfolding position_def by (induction rs) auto

lemma position_distinct:
  "distinct (map archive rs) \<Longrightarrow> i < length rs \<Longrightarrow> position rs (archive (rs ! i)) = i"
proof (induction rs arbitrary: i)
  case Nil
  then show ?case by simp
next
  case (Cons r rest)
  show ?case
  proof (cases i)
    case 0
    then show ?thesis by (simp add: position_def)
  next
    case (Suc j)
    with Cons.prems have j: "j < length rest" by simp
    then have "rest ! j \<in> set rest" by simp
    with Cons.prems have "archive (rest ! j) \<noteq> archive r" by (metis distinct.simps(2) image_eqI list.simps(9) list.set_map)
    note j this
    with Cons Suc show ?thesis by (simp add: position_def)
  qed
qed

lemma position_Cons:
  "position (r # rest) ar = (if archive r = ar then 0 else Suc (position rest ar))"
  by (simp add: position_def)

lemma registry_ok_distinct: "registry_ok par rs \<Longrightarrow> distinct (map archive rs)"
  by (induction rs) auto

lemma registry_ok_child:
  "registry_ok par rs \<Longrightarrow> oa \<in> set rs \<Longrightarrow> c \<in> set (open_children oa) \<Longrightarrow>
   par c = Some (archive oa) \<and> c \<in> archive ` set rs
   \<and> position rs (archive oa) < position rs c"
proof (induction rs)
  case Nil
  then show ?case by simp
next
  case (Cons r rest)
  show ?case
  proof (cases "oa = r")
    case True
    with Cons.prems have "c \<in> archive ` set rest" "par c = Some (archive r)" "archive r \<notin> archive ` set rest"
      by auto
    with True show ?thesis by (auto simp: position_Cons)
  next
    case False
    with Cons.prems have m: "oa \<in> set rest" and ok: "registry_ok par rest" by auto
    from Cons.IH [OF ok m Cons.prems(3)] have ih: "par c = Some (archive oa)"
      "c \<in> archive ` set rest" "position rest (archive oa) < position rest c" by auto
    from Cons.prems(1) m ih(2) have "archive r \<noteq> archive oa" "archive r \<noteq> c" by auto
    with ih show ?thesis by (auto simp: position_Cons)
  qed
qed

lemma registry_ok_children_distinct:
  "registry_ok par rs \<Longrightarrow> oa \<in> set rs \<Longrightarrow> distinct (open_children oa)"
  by (induction rs) auto

lemma registry_ok_one_parent:
  assumes "registry_ok par rs" "oa \<in> set rs" "oa' \<in> set rs"
    and "c \<in> set (open_children oa)" "c \<in> set (open_children oa')"
  shows "oa = oa'"
proof -
  from registry_ok_child [OF assms(1,2,4)] registry_ok_child [OF assms(1,3,5)]
  have e: "archive oa = archive oa'" by simp
  from assms(2) obtain i where i: "i < length rs" "rs ! i = oa" by (auto simp: in_set_conv_nth)
  from assms(3) obtain j where j: "j < length rs" "rs ! j = oa'" by (auto simp: in_set_conv_nth)
  from registry_ok_distinct [OF assms(1)] i j e have "i = j"
    by (metis length_map nth_eq_iff_index_eq nth_map)
  with i j show ?thesis by simp
qed

lemma registry_ok_without:
  "registry_ok par rs \<Longrightarrow>
   (\<And>oa. oa \<in> set rs \<Longrightarrow> archive oa \<notin> X \<Longrightarrow> set (open_children oa) \<inter> X = {}) \<Longrightarrow>
   registry_ok par (without X rs)"
proof (induction rs)
  case Nil
  then show ?case by (simp add: without_def)
next
  case (Cons r rest)
  have ih: "registry_ok par (without X rest)"
    using Cons.IH Cons.prems by auto
  have sub: "archive ` set (without X rest) = archive ` set rest - X"
    by (auto simp: without_def)
  show ?case
  proof (cases "archive r \<in> X")
    case True
    with ih show ?thesis by (simp add: without_def)
  next
    case False
    with Cons.prems(2) [of r] have "set (open_children r) \<inter> X = {}" by simp
    with Cons.prems(1) False ih sub show ?thesis
      by (auto simp: without_def)
  qed
qed

lemma registry_ok_map:
  "registry_ok par rs \<Longrightarrow>
   (\<And>oa. oa \<in> set rs \<Longrightarrow> archive (g oa) = archive oa \<and> set (open_children (g oa)) \<subseteq> set (open_children oa)
       \<and> distinct (open_children (g oa))) \<Longrightarrow>
   registry_ok par (map g rs)"
proof (induction rs)
  case Nil
  then show ?case by simp
next
  case (Cons r rest)
  have ih: "registry_ok par (map g rest)" using Cons.IH Cons.prems by auto
  have h: "archive ` set (map g rest) = archive ` set rest"
    using Cons.prems(2) by (auto simp: image_iff)
  from Cons.prems(2) [of r] have r: "archive (g r) = archive r"
    "set (open_children (g r)) \<subseteq> set (open_children r)" "distinct (open_children (g r))" by auto
  with Cons.prems(1) ih h show ?case by auto
qed

lemma subtree_untracked: "ar \<notin> archive ` set rs \<Longrightarrow> subtree rs ar = [ar]"
  by (induction rs) auto

lemma subtree_self: "ar \<in> set (subtree rs ar)"
  by (induction rs) auto

lemma subtree_handles:
  "registry_ok par rs \<Longrightarrow> ar \<in> archive ` set rs \<Longrightarrow> set (subtree rs ar) \<subseteq> archive ` set rs"
proof (induction rs arbitrary: ar)
  case Nil
  then show ?case by simp
next
  case (Cons r rest)
  from Cons.prems(1) have ok: "registry_ok par rest" by simp
  show ?case
  proof (cases "archive r = ar")
    case True
    have "set (subtree rest c) \<subseteq> archive ` set rest" if "c \<in> set (open_children r)" for c
      using Cons.IH [OF ok, of c] Cons.prems(1) that by auto
    with True show ?thesis by auto
  next
    case False
    with Cons.prems(2) have "ar \<in> archive ` set rest" by auto
    from Cons.IH [OF ok this] False show ?thesis by auto
  qed
qed

lemma subtree_unfold:
  "registry_ok par rs \<Longrightarrow> ar \<in> archive ` set rs \<Longrightarrow>
   subtree rs ar = ar # concat (map (subtree rs) (open_children (rs ! position rs ar)))"
proof (induction rs)
  case Nil
  then show ?case by simp
next
  case (Cons r rest)
  from Cons.prems(1) have ok: "registry_ok par rest" by simp
  show ?case
  proof (cases "archive r = ar")
    case True
    have "subtree (r # rest) c = subtree rest c" if "c \<in> set (open_children r)" for c
      using Cons.prems(1) that by auto
    then have E: "map (subtree (r # rest)) (open_children r) = map (subtree rest) (open_children r)"
      by (intro map_cong refl)
    from True have p: "position (r # rest) ar = 0" by (simp add: position_Cons)
    show ?thesis unfolding p nth_Cons_0 E using True by simp
  next
    case False
    with Cons.prems(2) have m: "ar \<in> archive ` set rest" by auto
    let ?oa = "rest ! position rest ar"
    have in_rest: "?oa \<in> set rest" using position_less [OF m] by simp
    have "subtree (r # rest) c = subtree rest c" if "c \<in> set (open_children ?oa)" for c
    proof -
      from registry_ok_child [OF ok in_rest that] have "c \<in> archive ` set rest" by simp
      with Cons.prems(1) have "archive r \<noteq> c" by auto
      then show ?thesis by simp
    qed
    then have E: "map (subtree (r # rest)) (open_children ?oa) = map (subtree rest) (open_children ?oa)"
      by (intro map_cong refl)
    from False have p: "position (r # rest) ar = Suc (position rest ar)" by (simp add: position_Cons)
    from False have u: "subtree (r # rest) ar = subtree rest ar" by simp
    show ?thesis unfolding p nth_Cons_Suc E u by (rule Cons.IH [OF ok m])
  qed
qed

lemma children_first_unfold:
  "registry_ok par rs \<Longrightarrow> ar \<in> archive ` set rs \<Longrightarrow>
   children_first rs ar = concat (map (children_first rs) (open_children (rs ! position rs ar))) @ [ar]"
proof (induction rs)
  case Nil
  then show ?case by simp
next
  case (Cons r rest)
  from Cons.prems(1) have ok: "registry_ok par rest" by simp
  show ?case
  proof (cases "archive r = ar")
    case True
    have "children_first (r # rest) c = children_first rest c" if "c \<in> set (open_children r)" for c
      using Cons.prems(1) that by auto
    then have E: "map (children_first (r # rest)) (open_children r) = map (children_first rest) (open_children r)"
      by (intro map_cong refl)
    from True have p: "position (r # rest) ar = 0" by (simp add: position_Cons)
    show ?thesis unfolding p nth_Cons_0 E using True by simp
  next
    case False
    with Cons.prems(2) have m: "ar \<in> archive ` set rest" by auto
    let ?oa = "rest ! position rest ar"
    have in_rest: "?oa \<in> set rest" using position_less [OF m] by simp
    have "children_first (r # rest) c = children_first rest c" if "c \<in> set (open_children ?oa)" for c
    proof -
      from registry_ok_child [OF ok in_rest that] have "c \<in> archive ` set rest" by simp
      with Cons.prems(1) have "archive r \<noteq> c" by auto
      then show ?thesis by simp
    qed
    then have E: "map (children_first (r # rest)) (open_children ?oa) = map (children_first rest) (open_children ?oa)"
      by (intro map_cong refl)
    from False have p: "position (r # rest) ar = Suc (position rest ar)" by (simp add: position_Cons)
    from False have u: "children_first (r # rest) ar = children_first rest ar" by simp
    show ?thesis unfolding p nth_Cons_Suc E u by (rule Cons.IH [OF ok m])
  qed
qed


lemma subtree_positions:
  "registry_ok par rs \<Longrightarrow> ar \<in> archive ` set rs \<Longrightarrow> y \<in> set (subtree rs ar) \<Longrightarrow> y \<noteq> ar \<Longrightarrow>
   position rs ar < position rs y"
proof (induction rs arbitrary: ar)
  case Nil
  then show ?case by simp
next
  case (Cons r rest)
  from Cons.prems(1) have ok: "registry_ok par rest" by simp
  show ?case
  proof (cases "archive r = ar")
    case True
    with Cons.prems obtain c where c: "c \<in> set (open_children r)" "y \<in> set (subtree rest c)"
      by auto
    with Cons.prems(1) have "c \<in> archive ` set rest" by auto
    from subtree_handles [OF ok this] c(2) have "y \<in> archive ` set rest" by auto
    with Cons.prems(1) have "archive r \<noteq> y" by auto
    with True show ?thesis by (simp add: position_Cons)
  next
    case False
    with Cons.prems have m: "ar \<in> archive ` set rest" and y: "y \<in> set (subtree rest ar)" by auto
    from subtree_handles [OF ok m] y have "y \<in> archive ` set rest" by auto
    with Cons.prems(1) have "archive r \<noteq> y" by auto
    with False Cons.IH [OF ok m y Cons.prems(4)] show ?thesis by (simp add: position_Cons)
  qed
qed

lemma parent_in_subtree:
  "registry_ok par rs \<Longrightarrow> y \<in> set (subtree rs ar) \<Longrightarrow> y \<noteq> ar \<Longrightarrow>
   \<exists>oa \<in> set rs. y \<in> set (open_children oa) \<and> archive oa \<in> set (subtree rs ar)"
proof (induction rs arbitrary: ar)
  case Nil
  then show ?case by simp
next
  case (Cons r rest)
  from Cons.prems(1) have ok: "registry_ok par rest" by simp
  show ?case
  proof (cases "archive r = ar")
    case True
    with Cons.prems obtain c where c: "c \<in> set (open_children r)" "y \<in> set (subtree rest c)"
      by auto
    show ?thesis
    proof (cases "y = c")
      case True
      with c \<open>archive r = ar\<close> show ?thesis by auto
    next
      case False
      from Cons.IH [OF ok c(2) False] obtain oa where
        "oa \<in> set rest" "y \<in> set (open_children oa)" "archive oa \<in> set (subtree rest c)" by auto
      with c(1) \<open>archive r = ar\<close> show ?thesis by auto
    qed
  next
    case False
    with Cons.prems have y: "y \<in> set (subtree rest ar)" by auto
    from Cons.IH [OF ok y Cons.prems(3)] False show ?thesis by auto
  qed
qed

lemma subtree_frame:
  "(\<And>oa. oa \<in> set rs \<Longrightarrow> archive (g oa) = archive oa) \<Longrightarrow>
   (\<And>oa. oa \<in> set rs \<Longrightarrow> archive oa \<in> set (subtree rs ar) \<Longrightarrow> P oa \<and> g oa = oa) \<Longrightarrow>
   subtree (map g (filter P rs)) ar = subtree rs ar"
proof (induction rs arbitrary: ar)
  case Nil
  then show ?case by simp
next
  case (Cons r rest)
  show ?case
  proof (cases "archive r = ar")
    case True
    from Cons.prems(2) [of r] True have keep: "P r" "g r = r" by (simp_all add: subtree_self)
    have "subtree (map g (filter P rest)) c = subtree rest c" if "c \<in> set (open_children r)" for c
    proof (rule Cons.IH)
      fix oa assume "oa \<in> set rest"
      then show "archive (g oa) = archive oa" using Cons.prems(1) by simp
    next
      fix oa assume "oa \<in> set rest" "archive oa \<in> set (subtree rest c)"
      with that True show "P oa \<and> g oa = oa" using Cons.prems(2) [of oa] by auto
    qed
    then have E: "map (subtree (map g (filter P rest))) (open_children r) = map (subtree rest) (open_children r)"
      by (intro map_cong refl)
    from True keep have "subtree (map g (filter P (r # rest))) ar
        = ar # concat (map (subtree (map g (filter P rest))) (open_children r))" by simp
    also have "\<dots> = ar # concat (map (subtree rest) (open_children r))" by (simp only: E)
    also have "\<dots> = subtree (r # rest) ar" using True by simp
    finally show ?thesis .
  next
    case False
    have ih: "subtree (map g (filter P rest)) ar = subtree rest ar"
    proof (rule Cons.IH)
      fix oa assume "oa \<in> set rest"
      then show "archive (g oa) = archive oa" using Cons.prems(1) by simp
    next
      fix oa assume "oa \<in> set rest" "archive oa \<in> set (subtree rest ar)"
      with False show "P oa \<and> g oa = oa" using Cons.prems(2) [of oa] by auto
    qed
    from Cons.prems(1) [of r] False have "archive (g r) \<noteq> ar" by simp
    with False ih show ?thesis by simp
  qed
qed

lemma children_first_frame:
  "(\<And>oa. oa \<in> set rs \<Longrightarrow> archive (g oa) = archive oa) \<Longrightarrow>
   (\<And>oa. oa \<in> set rs \<Longrightarrow> archive oa \<in> set (subtree rs ar) \<Longrightarrow> P oa \<and> g oa = oa) \<Longrightarrow>
   children_first (map g (filter P rs)) ar = children_first rs ar"
proof (induction rs arbitrary: ar)
  case Nil
  then show ?case by simp
next
  case (Cons r rest)
  show ?case
  proof (cases "archive r = ar")
    case True
    from Cons.prems(2) [of r] True have keep: "P r" "g r = r" by (simp_all add: subtree_self)
    have "children_first (map g (filter P rest)) c = children_first rest c" if "c \<in> set (open_children r)" for c
    proof (rule Cons.IH)
      fix oa assume "oa \<in> set rest"
      then show "archive (g oa) = archive oa" using Cons.prems(1) by simp
    next
      fix oa assume "oa \<in> set rest" "archive oa \<in> set (subtree rest c)"
      with that True show "P oa \<and> g oa = oa" using Cons.prems(2) [of oa] by auto
    qed
    then have E: "map (children_first (map g (filter P rest))) (open_children r) = map (children_first rest) (open_children r)"
      by (intro map_cong refl)
    from True keep have "children_first (map g (filter P (r # rest))) ar
        = concat (map (children_first (map g (filter P rest))) (open_children r)) @ [ar]" by simp
    also have "\<dots> = concat (map (children_first rest) (open_children r)) @ [ar]" by (simp only: E)
    also have "\<dots> = children_first (r # rest) ar" using True by simp
    finally show ?thesis .
  next
    case False
    have ih: "children_first (map g (filter P rest)) ar = children_first rest ar"
    proof (rule Cons.IH)
      fix oa assume "oa \<in> set rest"
      then show "archive (g oa) = archive oa" using Cons.prems(1) by simp
    next
      fix oa assume "oa \<in> set rest" "archive oa \<in> set (subtree rest ar)"
      with False show "P oa \<and> g oa = oa" using Cons.prems(2) [of oa] by auto
    qed
    from Cons.prems(1) [of r] False have "archive (g r) \<noteq> ar" by simp
    with False ih show ?thesis by simp
  qed
qed

lemma set_children_first: "set (children_first rs ar) = set (subtree rs ar)"
  by (induction rs arbitrary: ar) auto

text \<open>Two subtrees that share an archive are nested.\<close>

lemma subtrees_nested:
  assumes ok: "registry_ok par rs"
  shows "y \<in> set (subtree rs c) \<Longrightarrow> y \<in> set (subtree rs c') \<Longrightarrow>
         c \<in> set (subtree rs c') \<or> c' \<in> set (subtree rs c)"
proof (induction "position rs y" arbitrary: y rule: less_induct)
  case less
  show ?case
  proof (cases "y = c \<or> y = c'")
    case True
    with less.prems show ?thesis by auto
  next
    case False
    from parent_in_subtree [OF ok less.prems(1)] False obtain oa where
      oa: "oa \<in> set rs" "y \<in> set (open_children oa)" "archive oa \<in> set (subtree rs c)" by auto
    from parent_in_subtree [OF ok less.prems(2)] False obtain oa' where
      oa': "oa' \<in> set rs" "y \<in> set (open_children oa')" "archive oa' \<in> set (subtree rs c')" by auto
    from registry_ok_one_parent [OF ok oa(1) oa'(1) oa(2) oa'(2)] have e: "oa = oa'" .
    from registry_ok_child [OF ok oa(1,2)] have "position rs (archive oa) < position rs y" by simp
    from less.hyps [OF this oa(3)] oa'(3) e show ?thesis by simp
  qed
qed

text \<open>The subtrees of two children of one record are disjoint.\<close>

lemma sibling_subtrees_disjoint:
  assumes ok: "registry_ok par rs" and oa: "oa \<in> set rs"
    and c: "c \<in> set (open_children oa)" and c': "c' \<in> set (open_children oa)" and ne: "c \<noteq> c'"
  shows "set (subtree rs c) \<inter> set (subtree rs c') = {}"
proof (rule ccontr)
  assume "set (subtree rs c) \<inter> set (subtree rs c') \<noteq> {}"
  then obtain y where "y \<in> set (subtree rs c)" "y \<in> set (subtree rs c')" by auto
  from subtrees_nested [OF ok this] have "c \<in> set (subtree rs c') \<or> c' \<in> set (subtree rs c)" .
  moreover have False if x: "x \<in> set (open_children oa)" "z \<in> set (open_children oa)" "x \<noteq> z"
    "x \<in> set (subtree rs z)" for x z
  proof -
    from parent_in_subtree [OF ok x(4) x(3)] obtain q where
      q: "q \<in> set rs" "x \<in> set (open_children q)" "archive q \<in> set (subtree rs z)" by auto
    from registry_ok_one_parent [OF ok q(1) oa q(2) x(1)] have "q = oa" .
    with q have in_z: "archive oa \<in> set (subtree rs z)" by simp
    from registry_ok_child [OF ok oa x(2)] have z: "z \<in> archive ` set rs"
      "position rs (archive oa) < position rs z" by simp_all
    then have "archive oa \<noteq> z" by auto
    from subtree_positions [OF ok z(1) in_z this] z(2) show False by simp
  qed
  ultimately show False using c c' ne by blast
qed


subsection \<open>The steps of closing\<close>

lemma deleteBookmarksInArchive_loop_eq:
  "deleteBookmarksInArchive_loop env ar bs removed =
     (removed \<or> (\<exists>b \<in> set bs. entryParent env b = Some ar),
      filter (\<lambda>b. entryParent env b \<noteq> Some ar) bs)"
  by (induction bs arbitrary: removed) auto

lemma deleteBookmarksInArchive_eq:
  "snd (deleteBookmarksInArchive env ar s) =
     s\<lparr>bookmarks := filter (\<lambda>b. entryParent env b \<noteq> Some ar) (bookmarks s),
       events := events s @
         (if (\<exists>b \<in> set (bookmarks s). entryParent env b = Some ar) \<and> \<not> muted s
          then [Announce ''bookmarks_changed'' None] else [])\<rparr>"
  by (auto simp: deleteBookmarksInArchive_def deleteBookmarksInArchive_loop_eq announce_def Let_def)

lemma resource_removals_append [simp]:
  "resource_removals (xs @ ys) = resource_removals xs @ resource_removals ys"
  by (induction xs rule: resource_removals.induct) auto

lemma archive_closes_append [simp]:
  "archive_closes (xs @ ys) = archive_closes xs @ archive_closes ys"
  by (induction xs rule: archive_closes.induct) auto

lemma erase_first_remove1: "erase_first x ys = remove1 x ys"
  by (induction ys) auto

lemma list_update_as_map:
  assumes "distinct (map archive rs)" "i < length rs"
  shows "rs[i := f (rs ! i)] = map (\<lambda>r. if archive r = archive (rs ! i) then f r else r) rs"
proof (rule nth_equalityI)
  show "length (rs[i := f (rs ! i)]) = length (map (\<lambda>r. if archive r = archive (rs ! i) then f r else r) rs)"
    by simp
next
  fix j assume "j < length (rs[i := f (rs ! i)])"
  then have j: "j < length rs" by simp
  have "archive (rs ! j) = archive (rs ! i) \<longleftrightarrow> j = i"
    using assms j nth_eq_iff_index_eq [of "map archive rs" j i] by auto
  with j assms(2) show "rs[i := f (rs ! i)] ! j = map (\<lambda>r. if archive r = archive (rs ! i) then f r else r) rs ! j"
    by (auto simp: nth_list_update)
qed

lemma without_without: "without X (without Y rs) = without (X \<union> Y) rs"
  by (auto simp: without_def intro: filter_cong)

lemma without_map:
  "(\<And>oa. oa \<in> set rs \<Longrightarrow> archive (g oa) = archive oa) \<Longrightarrow> without X (map g rs) = map g (without X rs)"
  by (induction rs) (auto simp: without_def)

lemma handles_without: "archive ` set (without X rs) = archive ` set rs - X"
  by (auto simp: without_def)

lemma without_suffix_length:
  "ar \<in> archive ` set (without X rs) \<Longrightarrow>
   length (without X rs) - position (without X rs) ar \<le> length rs - position rs ar"
proof (induction rs)
  case Nil
  then show ?case by (simp add: without_def)
next
  case (Cons r rest)
  show ?case
  proof (cases "archive r = ar")
    case True
    from Cons.prems have "ar \<in> archive ` set (r # rest) - X" by (simp only: handles_without)
    with True have "archive r \<notin> X" by auto
    with True have "position (without X (r # rest)) ar = 0" "position (r # rest) ar = 0"
      by (simp_all add: without_def position_Cons)
    moreover have "length (without X (r # rest)) \<le> length (r # rest)"
      unfolding without_def by (rule length_filter_le)
    ultimately show ?thesis by simp
  next
    case False
    from Cons.prems have "ar \<in> archive ` set (r # rest) - X" by (simp only: handles_without)
    with False have "ar \<in> archive ` set rest - X" by auto
    then have m: "ar \<in> archive ` set (without X rest)" by (simp only: handles_without)
    then have "position (without X rest) ar < length (without X rest)" by (rule position_less)
    moreover have "position rest ar \<le> length rest" by (simp add: position_def length_takeWhile_le)
    ultimately show ?thesis using Cons.IH [OF m] False
      by (auto simp: without_def position_Cons)
  qed
qed

lemma position_without:
  "ar \<in> archive ` set rs \<Longrightarrow> (\<And>x. x \<in> X \<Longrightarrow> position rs ar < position rs x) \<Longrightarrow>
   position (without X rs) ar = position rs ar"
proof (induction rs)
  case Nil
  then show ?case by simp
next
  case (Cons r rest)
  have nx: "archive r \<notin> X"
  proof
    assume "archive r \<in> X"
    from Cons.prems(2) [OF this] show False by (simp add: position_Cons)
  qed
  show ?case
  proof (cases "archive r = ar")
    case True
    with nx show ?thesis by (simp add: without_def position_Cons)
  next
    case False
    with Cons.prems(1) have m: "ar \<in> archive ` set rest" by auto
    have "position rest ar < position rest x" if "x \<in> X" for x
      using Cons.prems(2) [OF that] that nx False by (auto simp: position_Cons split: if_splits)
    from Cons.IH [OF m this] nx False show ?thesis by (simp add: without_def position_Cons)
  qed
qed

lemma without_single:
  "distinct (map archive rs) \<Longrightarrow> ar \<in> archive ` set rs \<Longrightarrow>
   without {ar} rs = erase_at (position rs ar) rs"
proof (induction rs)
  case Nil
  then show ?case by simp
next
  case (Cons r rest)
  show ?case
  proof (cases "archive r = ar")
    case True
    with Cons.prems(1) have "filter (\<lambda>oa. archive oa \<notin> {ar}) rest = rest"
      by (intro filter_True) (auto simp: image_iff)
    with True show ?thesis by (simp add: without_def position_Cons erase_at_def)
  next
    case False
    with Cons.prems have "without {ar} rest = erase_at (position rest ar) rest"
      by (intro Cons.IH) auto
    with False show ?thesis by (simp add: without_def position_Cons erase_at_def)
  qed
qed

lemma registry_ok_unlist: "registry_ok par rs \<Longrightarrow> registry_ok par (map (unlist ar) rs)"
proof (rule registry_ok_map)
  fix oa assume "registry_ok par rs" "oa \<in> set rs"
  then have "distinct (open_children oa)" by (rule registry_ok_children_distinct)
  then show "archive (unlist ar oa) = archive oa
       \<and> set (open_children (unlist ar oa)) \<subseteq> set (open_children oa)
       \<and> distinct (open_children (unlist ar oa))"
    by (auto simp: unlist_def)
qed

lemma registry_ok_closed:
  assumes ok: "registry_ok par rs"
  shows "registry_ok par (map (unlist ar) (without (set (subtree rs ar)) rs))"
proof -
  let ?X = "set (subtree rs ar)"
  have ok': "registry_ok par (map (unlist ar) rs)" using ok by (rule registry_ok_unlist)
  have "registry_ok par (without ?X (map (unlist ar) rs))"
  proof (rule registry_ok_without [OF ok'])
    fix oa' assume m: "oa' \<in> set (map (unlist ar) rs)" and nx: "archive oa' \<notin> ?X"
    then obtain oa where oa: "oa \<in> set rs" "oa' = unlist ar oa" by auto
    show "set (open_children oa') \<inter> ?X = {}"
    proof (rule ccontr)
      assume "set (open_children oa') \<inter> ?X \<noteq> {}"
      then obtain y where y: "y \<in> set (open_children oa')" "y \<in> ?X" by auto
      from registry_ok_children_distinct [OF ok oa(1)] y(1) oa(2)
      have yl: "y \<in> set (open_children oa)" "y \<noteq> ar" by (auto simp: unlist_def)
      from parent_in_subtree [OF ok y(2) yl(2)] obtain q where
        q: "q \<in> set rs" "y \<in> set (open_children q)" "archive q \<in> ?X" by auto
      from registry_ok_one_parent [OF ok q(1) oa(1) q(2) yl(1)] have "q = oa" .
      with q(3) oa(2) nx show False by (simp add: unlist_def)
    qed
  qed
  then show ?thesis by (simp add: without_map unlist_def)
qed

lemma parent_archive_frame:
  "parentEntry s' = parentEntry s \<Longrightarrow> parent_archive env s' = parent_archive env s"
  by (rule ext) (simp add: parent_archive_def)

lemma closeArchive_finish_eq:
  assumes ok: "registry_ok (parent_archive env s5) (open_archives s5)"
    and tracked: "ar \<in> archive ` set (open_archives s5)"
  shows "closeArchive_finish env (int (position (open_archives s5) ar)) s5 =
     Returns (True,
       s5\<lparr>open_archives := map (unlist ar) (without {ar} (open_archives s5)),
          events := events s5 @ ArchiveClose ar #
            (if muted s5 then [] else [Announce ''archive_closed'' (Some (int (position (open_archives s5) ar)))])\<rparr>)"
proof -
  let ?R = "open_archives s5"
  let ?i = "position ?R ar"
  have i: "?i < length ?R" using tracked by (rule position_less)
  have a: "archive (?R ! ?i) = ar" using tracked by (rule position_nth)
  have d: "distinct (map archive ?R)" using ok by (rule registry_ok_distinct)
  define s6 where "s6 = (case parentEntry s5 ar of
                    None \<Rightarrow> s5
                  | Some parent \<Rightarrow>
                      (case entryParent env parent of
                         None \<Rightarrow> s5
                       | Some gp \<Rightarrow>
                           let pi = archiveIndex gp s5 in
                           if pi \<ge> 0
                           then s5\<lparr>open_archives := (open_archives s5)
                                  [nat pi := (open_archives s5 ! nat pi)
                                     \<lparr>open_children :=
                                        erase_first ar (open_children (open_archives s5 ! nat pi))\<rparr>]\<rparr>
                           else s5))"
  have listed: "parent_archive env s5 ar = Some (archive oa)" if "oa \<in> set ?R" "ar \<in> set (open_children oa)" for oa
    using registry_ok_child [OF ok that] by simp
  have s6: "s6 = s5\<lparr>open_archives := map (unlist ar) ?R\<rparr>"
  proof (cases "parent_archive env s5 ar")
    case None
    then have "s6 = s5" by (auto simp: s6_def parent_archive_def split: option.splits)
    moreover have "map (unlist ar) ?R = ?R"
    proof (rule map_idI)
      fix oa assume "oa \<in> set ?R"
      with listed [of oa] None have "ar \<notin> set (open_children oa)" by auto
      then show "unlist ar oa = oa" by (simp add: unlist_def remove1_idem)
    qed
    ultimately show ?thesis by simp
  next
    case (Some gp)
    show ?thesis
    proof (cases "gp \<in> archive ` set ?R")
      case False
      with Some have "s6 = s5" by (auto simp: s6_def parent_archive_def archiveIndex_eq split: option.splits)
      moreover have "map (unlist ar) ?R = ?R"
      proof (rule map_idI)
        fix oa assume m: "oa \<in> set ?R"
        with listed [of oa] Some False have "ar \<notin> set (open_children oa)" by auto
        then show "unlist ar oa = oa" by (simp add: unlist_def remove1_idem)
      qed
      ultimately show ?thesis by simp
    next
      case True
      let ?p = "position ?R gp"
      have p: "?p < length ?R" "archive (?R ! ?p) = gp"
        using True by (simp_all add: position_less position_nth)
      from Some True have "s6 = s5\<lparr>open_archives := ?R[?p := unlist ar (?R ! ?p)]\<rparr>"
        by (auto simp: s6_def parent_archive_def archiveIndex_eq unlist_def erase_first_remove1 Let_def
            split: option.splits)
      also have "?R[?p := unlist ar (?R ! ?p)] = map (\<lambda>r. if archive r = archive (?R ! ?p) then unlist ar r else r) ?R"
        by (rule list_update_as_map [OF d p(1)])
      also have "\<dots> = map (unlist ar) ?R"
      proof (rule map_cong [OF refl])
        fix oa assume m: "oa \<in> set ?R"
        show "(if archive oa = archive (?R ! ?p) then unlist ar oa else oa) = unlist ar oa"
        proof (cases "archive oa = gp")
          case True
          with p show ?thesis by simp
        next
          case False
          with listed [OF m] Some have "ar \<notin> set (open_children oa)" by auto
          then show ?thesis by (simp add: unlist_def remove1_idem)
        qed
      qed
      finally show ?thesis .
    qed
  qed
  have er: "erase_at ?i (map (unlist ar) ?R) = map (unlist ar) (without {ar} ?R)"
    unfolding without_single [OF d tracked] by (simp add: erase_at_def take_map drop_map)
  have "closeArchive_finish env (int ?i) s5 =
     Returns (True, announce ''archive_closed'' (Some (int ?i))
        ((call (ArchiveClose ar) s6)\<lparr>open_archives := erase_at ?i (open_archives (call (ArchiveClose ar) s6))\<rparr>))"
    using i a unfolding closeArchive_finish_def s6_def by (simp add: Let_def)
  then show ?thesis
    unfolding s6 by (simp add: announce_def call_def er)
qed


subsection \<open>Closing an archive closes its subtree\<close>

lemma position_map:
  "(\<And>oa. oa \<in> set rs \<Longrightarrow> archive (g oa) = archive oa) \<Longrightarrow> position (map g rs) ar = position rs ar"
  by (induction rs) (auto simp: position_Cons)

lemma without_empty [simp]: "without {} rs = rs"
  by (simp add: without_def)

lemma announced_append [simp]:
  "announced name (xs @ ys) = announced name xs + announced name ys"
  by (simp add: announced_def)

lemma closeArchive_subtree:
  "registry_ok (parent_archive env s) (open_archives s) \<Longrightarrow>
   ar \<in> archive ` set (open_archives s) \<Longrightarrow>
   length (open_archives s) - position (open_archives s) ar \<le> fuel \<Longrightarrow>
   \<exists>evs. closeArchive fuel env (int (position (open_archives s) ar)) s
            = Returns (True, closed_state env ar (set (subtree (open_archives s) ar)) evs s)
        \<and> resource_removals evs = subtree (open_archives s) ar
        \<and> archive_closes evs = children_first (open_archives s) ar
        \<and> announced ''archive_closing'' evs = (if muted s then 0 else length (subtree (open_archives s) ar))
        \<and> announced ''archive_closed'' evs = (if muted s then 0 else length (subtree (open_archives s) ar))"
proof (induction fuel arbitrary: s ar)
  case 0
  from position_less [OF "0.prems"(2)] "0.prems"(3) show ?case by simp
next
  case (Suc n)
  define rs where "rs = open_archives s"
  define i where "i = position rs ar"
  define par where "par = parent_archive env s"
  define oa where "oa = rs ! i"
  define cs where "cs = open_children oa"
  have ok: "registry_ok par rs" and tracked: "ar \<in> archive ` set rs"
    and fuel: "length rs - i \<le> Suc n"
    using Suc.prems by (simp_all add: rs_def par_def i_def)
  have i: "i < length rs" and a: "archive oa = ar"
    using tracked by (simp_all add: i_def oa_def position_less position_nth)
  have oa: "oa \<in> set rs" using i by (simp add: oa_def)
  have d: "distinct (map archive rs)" using ok by (rule registry_ok_distinct)
  have dcs: "distinct cs" unfolding cs_def using ok oa by (rule registry_ok_children_distinct)
  note child = registry_ok_child [OF ok oa, folded cs_def, unfolded a]
  have child_pos: "i < position rs c" if "c \<in> set cs" for c
    using child [OF that] by (simp add: i_def)
  have below: "i < position rs y" if "c \<in> set cs" "y \<in> set (subtree rs c)" for c y
  proof (cases "y = c")
    case True
    with child_pos [OF that(1)] show ?thesis by simp
  next
    case False
    from child [OF that(1)] have "c \<in> archive ` set rs" by simp
    from subtree_positions [OF ok this that(2) False] child_pos [OF that(1)] show ?thesis by simp
  qed
  have ar_out: "ar \<notin> set (subtree rs c)" if "c \<in> set cs" for c
    using below [OF that, of ar] by (auto simp: i_def)

  define clear where "clear = (\<lambda>r::OpenArchive. if archive r = ar then r\<lparr>open_children := []\<rparr> else r)"
  define rs4 where "rs4 = map clear rs"
  have clear_archive: "archive (clear r) = archive r" for r by (simp add: clear_def)
  have len4: "length rs4 = length rs" by (simp add: rs4_def)
  have h4: "archive ` set rs4 = archive ` set rs"
    by (simp add: rs4_def image_image clear_archive)
  have pos4: "position rs4 x = position rs x" for x
    unfolding rs4_def by (rule position_map) (rule clear_archive)
  have ok4: "registry_ok par rs4"
    unfolding rs4_def
  proof (rule registry_ok_map [OF ok])
    fix r assume "r \<in> set rs"
    with ok have "distinct (open_children r)" by (rule registry_ok_children_distinct)
    then show "archive (clear r) = archive r \<and> set (open_children (clear r)) \<subseteq> set (open_children r)
        \<and> distinct (open_children (clear r))"
      by (simp add: clear_def)
  qed
  have nolist: "c \<notin> set (open_children r)" if "r \<in> set rs4" "c \<in> set cs" for r c
  proof
    assume l: "c \<in> set (open_children r)"
    from that(1) obtain q where q: "q \<in> set rs" "r = clear q" by (auto simp: rs4_def)
    with l have ne: "archive q \<noteq> ar" and "r = q" by (auto simp: clear_def split: if_splits)
    with l q have "c \<in> set (open_children q)" by simp
    from registry_ok_one_parent [OF ok q(1) oa this] that(2) have "q = oa" by (simp add: cs_def)
    with ne a show False by simp
  qed
  have sub4: "subtree rs4 c = subtree rs c" and cf4: "children_first rs4 c = children_first rs c"
    if "c \<in> set cs" for c
  proof -
    have g: "archive (clear r) = archive r" if "r \<in> set rs" for r by (rule clear_archive)
    have k: "True \<and> clear r = r" if "r \<in> set rs" "archive r \<in> set (subtree rs c)" for r
      using that ar_out [OF \<open>c \<in> set cs\<close>] by (auto simp: clear_def)
    from subtree_frame [of rs clear c "\<lambda>_. True", OF g k] show "subtree rs4 c = subtree rs c"
      by (simp add: rs4_def)
    from children_first_frame [of rs clear c "\<lambda>_. True", OF g k]
    show "children_first rs4 c = children_first rs c"
      by (simp add: rs4_def)
  qed

  define E0 where "E0 = (if muted s then [] else [Announce ''archive_closing'' (Some (int i))])
      @ (if (\<exists>b \<in> set (bookmarks s). entryParent env b = Some ar) \<and> \<not> muted s
         then [Announce ''bookmarks_changed'' None] else [])
      @ [ResourceRemove ar]"
  define s4 where "s4 = s\<lparr>open_archives := rs4,
      bookmarks := filter (\<lambda>b. entryParent env b \<noteq> Some ar) (bookmarks s),
      events := events s @ E0\<rparr>"
  define body where "body = (\<lambda>ar t. let ci = archiveIndex ar t in
                        if ci \<ge> 0
                        then (case closeArchive n env ci t of
                                Returns r \<Rightarrow> Returns (snd r)
                              | OutOfFuel \<Rightarrow> OutOfFuel
                              | Undefined \<Rightarrow> Undefined)
                        else Returns t)"
  have upd: "rs[i := (rs ! i)\<lparr>open_children := []\<rparr>] = rs4"
    using list_update_as_map [OF d i, of "\<lambda>r. r\<lparr>open_children := []\<rparr>"] a
    by (simp add: rs4_def clear_def oa_def)
  have unfold: "closeArchive (Suc n) env (int i) s =
      (case for_each body cs s4 of
         OutOfFuel \<Rightarrow> OutOfFuel
       | Undefined \<Rightarrow> Undefined
       | Returns s5 \<Rightarrow> closeArchive_finish env (int i) s5)"
  proof -
    let ?s1 = "announce ''archive_closing'' (Some (int i)) s"
    have s1: "open_archives ?s1 = rs" "bookmarks ?s1 = bookmarks s" "muted ?s1 = muted s"
      "events ?s1 = events s @ (if muted s then [] else [Announce ''archive_closing'' (Some (int i))])"
      by (simp_all add: announce_def rs_def)
    let ?s2 = "snd (deleteBookmarksInArchive env ar ?s1)"
    let ?s3 = "call (ResourceRemove ar) ?s2"
    have s3: "?s3\<lparr>open_archives := rs4\<rparr> = s4"
      unfolding deleteBookmarksInArchive_eq s1 call_def s4_def E0_def
      by (simp add: announce_def)
    have o3: "open_archives ?s3 = rs" "open_archives ?s2 = rs"
      unfolding deleteBookmarksInArchive_eq call_def by (simp_all add: s1)
    have "\<not> (int i < 0 \<or> int i \<ge> int (length (open_archives s)))" using i by (simp add: rs_def)
    then show ?thesis
      unfolding closeArchive.simps
      by (simp only: if_False Let_def s1 o3 nat_int a [unfolded oa_def] upd s3
          cs_def [unfolded oa_def, symmetric] body_def)
  qed

  define T where "T = (\<lambda>X E. s4\<lparr>open_archives := without X rs4,
      bookmarks := filter (\<lambda>b. entryParent env b \<notin> Some ` X) (bookmarks s4),
      events := events s4 @ E\<rparr>)"
  have T0: "T {} [] = s4" by (simp add: T_def s4_def)
  have parT: "parent_archive env (T X E) = par" for X E
    unfolding par_def by (rule parent_archive_frame) (simp add: T_def s4_def)

  have loop: "registry_ok par (without X rs4) \<Longrightarrow> distinct todo \<Longrightarrow> set todo \<subseteq> set cs \<Longrightarrow>
        (\<forall>c \<in> set todo. set (subtree rs4 c) \<inter> X = {}) \<Longrightarrow>
        \<exists>E'. for_each body todo (T X E)
                = Returns (T (X \<union> (\<Union>c \<in> set todo. set (subtree rs4 c))) (E @ E'))
            \<and> resource_removals E' = concat (map (subtree rs4) todo)
            \<and> archive_closes E' = concat (map (children_first rs4) todo)
            \<and> announced ''archive_closing'' E' = (if muted s then 0 else length (concat (map (subtree rs4) todo)))
            \<and> announced ''archive_closed'' E' = (if muted s then 0 else length (concat (map (subtree rs4) todo)))
            \<and> registry_ok par (without (X \<union> (\<Union>c \<in> set todo. set (subtree rs4 c))) rs4)"
    for todo X E
  proof (induction todo arbitrary: X E)
    case Nil
    then show ?case by (intro exI [of _ "[]"]) (simp add: announced_def)
  next
    case (Cons c todo)
    let ?t = "T X E"
    let ?rt = "without X rs4"
    let ?S = "set (subtree rs4 c)"
    from Cons.prems have c: "c \<in> set cs" and cX: "?S \<inter> X = {}" by auto
    have c4: "c \<in> archive ` set rs4" using child [OF c] by (simp add: h4)
    have "c \<notin> X" using cX subtree_self [of c rs4] by auto
    with c4 have ct: "c \<in> archive ` set ?rt" by (simp add: handles_without)
    have ot: "open_archives ?t = ?rt" by (simp add: T_def)
    have idx: "archiveIndex c ?t = int (position ?rt c)"
      using ct by (simp add: archiveIndex_eq ot)
    have "length ?rt - position ?rt c \<le> length rs4 - position rs4 c"
      using ct by (rule without_suffix_length)
    also have "\<dots> \<le> n" using fuel child_pos [OF c] by (simp add: len4 pos4)
    finally have f: "length (open_archives ?t) - position (open_archives ?t) c \<le> n" by (simp add: ot)
    have okt: "registry_ok (parent_archive env ?t) (open_archives ?t)"
      using Cons.prems(1) by (simp add: parT ot)
    from Suc.IH [OF okt _ f] ct obtain Ec where
      Ec: "closeArchive n env (int (position ?rt c)) ?t
             = Returns (True, closed_state env c (set (subtree ?rt c)) Ec ?t)"
        "resource_removals Ec = subtree ?rt c" "archive_closes Ec = children_first ?rt c"
        "announced ''archive_closing'' Ec = (if muted ?t then 0 else length (subtree ?rt c))"
        "announced ''archive_closed'' Ec = (if muted ?t then 0 else length (subtree ?rt c))"
      unfolding ot by blast
    have mt: "muted ?t = muted s" by (simp add: T_def s4_def)
    have g: "archive ((\<lambda>x. x) r) = archive r" if "r \<in> set rs4" for r by simp
    have k: "archive r \<notin> X \<and> (\<lambda>x. x) r = r" if "r \<in> set rs4" "archive r \<in> set (subtree rs4 c)" for r
      using that cX by auto
    have st: "subtree ?rt c = subtree rs4 c"
      using subtree_frame [of rs4 "\<lambda>x. x" c "\<lambda>oa. archive oa \<notin> X", OF g k]
      by (simp add: without_def)
    have ft: "children_first ?rt c = children_first rs4 c"
      using children_first_frame [of rs4 "\<lambda>x. x" c "\<lambda>oa. archive oa \<notin> X", OF g k]
      by (simp add: without_def)
    have reg: "map (unlist c) (without ?S ?rt) = without (X \<union> ?S) rs4"
    proof -
      have "map (unlist c) (without (?S \<union> X) rs4) = without (?S \<union> X) rs4"
      proof (rule map_idI)
        fix r assume "r \<in> set (without (?S \<union> X) rs4)"
        then have "r \<in> set rs4" by (simp add: without_def)
        from nolist [OF this c] show "unlist c r = r" by (simp add: unlist_def remove1_idem)
      qed
      then show ?thesis by (simp add: without_without Un_commute)
    qed
    have bm: "filter (\<lambda>b. entryParent env b \<notin> Some ` ?S)
               (filter (\<lambda>b. entryParent env b \<notin> Some ` X) bs)
            = filter (\<lambda>b. entryParent env b \<notin> Some ` (X \<union> ?S)) bs" for bs
      by (induction bs) auto
    have cl: "closed_state env c (set (subtree ?rt c)) Ec ?t = T (X \<union> ?S) (E @ Ec)"
      unfolding st by (simp add: closed_state_def T_def reg image_Un)
    have step: "body c ?t = Returns (T (X \<union> ?S) (E @ Ec))"
      unfolding body_def idx Let_def using Ec(1) cl by simp
    have ok': "registry_ok par (without (X \<union> ?S) rs4)"
      using registry_ok_closed [OF Cons.prems(1), of c] unfolding st reg .
    have dj: "\<forall>c' \<in> set todo. set (subtree rs4 c') \<inter> (X \<union> ?S) = {}"
    proof
      fix c' assume c': "c' \<in> set todo"
      with Cons.prems have m: "c' \<in> set cs" "c' \<noteq> c" "set (subtree rs4 c') \<inter> X = {}" by auto
      from sibling_subtrees_disjoint [OF ok oa, of c' c] m(1,2) c
      have "set (subtree rs c') \<inter> set (subtree rs c) = {}" by (simp add: cs_def)
      with m(3) show "set (subtree rs4 c') \<inter> (X \<union> ?S) = {}"
        by (simp add: sub4 [OF m(1)] sub4 [OF c] Int_Un_distrib)
    qed
    from Cons.prems have "distinct todo" "set todo \<subseteq> set cs" by auto
    from Cons.IH [OF ok' this dj, of "E @ Ec"] obtain E' where
      E': "for_each body todo (T (X \<union> ?S) (E @ Ec))
             = Returns (T (X \<union> ?S \<union> (\<Union>c \<in> set todo. set (subtree rs4 c))) ((E @ Ec) @ E'))"
        "resource_removals E' = concat (map (subtree rs4) todo)"
        "archive_closes E' = concat (map (children_first rs4) todo)"
        "announced ''archive_closing'' E' = (if muted s then 0 else length (concat (map (subtree rs4) todo)))"
        "announced ''archive_closed'' E' = (if muted s then 0 else length (concat (map (subtree rs4) todo)))"
        "registry_ok par (without (X \<union> ?S \<union> (\<Union>c \<in> set todo. set (subtree rs4 c))) rs4)"
      by blast
    have u: "X \<union> ?S \<union> (\<Union>c \<in> set todo. set (subtree rs4 c))
           = X \<union> (\<Union>c \<in> set (c # todo). set (subtree rs4 c))" by auto
    show ?case
    proof (intro exI [of _ "Ec @ E'"] conjI)
      show "for_each body (c # todo) (T X E)
              = Returns (T (X \<union> (\<Union>c \<in> set (c # todo). set (subtree rs4 c))) (E @ Ec @ E'))"
        using step E'(1) unfolding u by simp
      show "resource_removals (Ec @ E') = concat (map (subtree rs4) (c # todo))"
        using Ec(2) E'(2) st by simp
      show "archive_closes (Ec @ E') = concat (map (children_first rs4) (c # todo))"
        using Ec(3) E'(3) ft by simp
      show "announced ''archive_closing'' (Ec @ E')
              = (if muted s then 0 else length (concat (map (subtree rs4) (c # todo))))"
        using Ec(4) E'(4) st mt by simp
      show "announced ''archive_closed'' (Ec @ E')
              = (if muted s then 0 else length (concat (map (subtree rs4) (c # todo))))"
        using Ec(5) E'(5) st mt by simp
      show "registry_ok par (without (X \<union> (\<Union>c \<in> set (c # todo). set (subtree rs4 c))) rs4)"
        using E'(6) unfolding u .
    qed
  qed

  define Xf where "Xf = (\<Union>c \<in> set cs. set (subtree rs c))"
  have Xf4: "(\<Union>c \<in> set cs. set (subtree rs4 c)) = Xf"
    unfolding Xf_def using sub4 by simp
  from loop [of "{}" cs "[]"] ok4 dcs obtain Ef where
    Ef: "for_each body cs s4 = Returns (T Xf Ef)"
      "resource_removals Ef = concat (map (subtree rs4) cs)"
      "archive_closes Ef = concat (map (children_first rs4) cs)"
      "announced ''archive_closing'' Ef = (if muted s then 0 else length (concat (map (subtree rs4) cs)))"
      "announced ''archive_closed'' Ef = (if muted s then 0 else length (concat (map (subtree rs4) cs)))"
      "registry_ok par (without Xf rs4)"
    unfolding T0 Xf4 by auto
  let ?s5 = "T Xf Ef"
  have o5: "open_archives ?s5 = without Xf rs4" by (simp add: T_def)
  have ar_Xf: "ar \<notin> Xf" using ar_out by (auto simp: Xf_def)
  have t5: "ar \<in> archive ` set (open_archives ?s5)"
    using tracked ar_Xf by (simp add: o5 handles_without h4)
  have p5: "position (open_archives ?s5) ar = i"
  proof -
    have "position (without Xf rs4) ar = position rs4 ar"
    proof (rule position_without)
      show "ar \<in> archive ` set rs4" using tracked by (simp add: h4)
      fix x assume "x \<in> Xf"
      then show "position rs4 ar < position rs4 x"
        using below by (auto simp: Xf_def pos4 i_def)
    qed
    then show ?thesis by (simp add: o5 pos4 i_def)
  qed
  have ok5: "registry_ok (parent_archive env ?s5) (open_archives ?s5)"
    using Ef(6) by (simp add: parT o5)
  define Ec where "Ec = ArchiveClose ar #
      (if muted s then [] else [Announce ''archive_closed'' (Some (int i))])"
  have m5: "muted ?s5 = muted s" by (simp add: T_def s4_def)
  have fin: "closeArchive_finish env (int i) ?s5 =
      Returns (True, ?s5\<lparr>open_archives := map (unlist ar) (without {ar} (without Xf rs4)),
                         events := events ?s5 @ Ec\<rparr>)"
    using closeArchive_finish_eq [OF ok5 t5] unfolding o5 p5 [unfolded o5] m5 Ec_def .
  have sub: "subtree rs ar = ar # concat (map (subtree rs) cs)"
    using subtree_unfold [OF ok tracked] by (simp add: cs_def oa_def i_def)
  have cf: "children_first rs ar = concat (map (children_first rs) cs) @ [ar]"
    using children_first_unfold [OF ok tracked] by (simp add: cs_def oa_def i_def)
  have X: "set (subtree rs ar) = insert ar Xf" unfolding sub Xf_def by auto
  have reg: "map (unlist ar) (without {ar} (without Xf rs4)) = map (unlist ar) (without (insert ar Xf) rs)"
  proof -
    have "without (insert ar Xf) rs4 = map clear (without (insert ar Xf) rs)"
      unfolding rs4_def by (rule without_map) (rule clear_archive)
    also have "\<dots> = without (insert ar Xf) rs"
      by (rule map_idI) (auto simp: without_def clear_def)
    finally show ?thesis by (simp add: without_without)
  qed
  have bm: "filter (\<lambda>b. entryParent env b \<notin> Some ` Xf)
             (filter (\<lambda>b. entryParent env b \<noteq> Some ar) bs)
          = filter (\<lambda>b. entryParent env b \<notin> Some ` insert ar Xf) bs" for bs
    by (induction bs) auto
  have final: "?s5\<lparr>open_archives := map (unlist ar) (without {ar} (without Xf rs4)),
                   events := events ?s5 @ Ec\<rparr>
      = closed_state env ar (set (subtree rs ar)) (E0 @ Ef @ Ec) s"
    unfolding X reg by (simp add: closed_state_def T_def s4_def bm rs_def)
  have r1: "resource_removals (E0 @ Ef @ Ec) = subtree rs ar"
  proof -
    have M: "map (subtree rs4) cs = map (subtree rs) cs" by (intro map_cong refl sub4)
    show ?thesis unfolding sub Ef(2) M resource_removals_append by (simp add: E0_def Ec_def)
  qed
  have r2: "archive_closes (E0 @ Ef @ Ec) = children_first rs ar"
  proof -
    have M: "map (children_first rs4) cs = map (children_first rs) cs" by (intro map_cong refl cf4)
    show ?thesis unfolding cf Ef(3) M archive_closes_append by (simp add: E0_def Ec_def)
  qed
  have M: "map (subtree rs4) cs = map (subtree rs) cs" by (intro map_cong refl sub4)
  have r3: "announced ''archive_closing'' (E0 @ Ef @ Ec) = (if muted s then 0 else length (subtree rs ar))"
    unfolding announced_append Ef(4) M sub by (simp add: E0_def Ec_def announced_def)
  have r4: "announced ''archive_closed'' (E0 @ Ef @ Ec) = (if muted s then 0 else length (subtree rs ar))"
    unfolding announced_append Ef(5) M sub by (simp add: E0_def Ec_def announced_def)
  show ?case
    unfolding rs_def [symmetric] i_def [symmetric]
    using unfold Ef(1) fin final r1 r2 r3 r4 by (intro exI [of _ "E0 @ Ef @ Ec"]) simp
qed


lemma subtree_Cons_tl: "subtree rs ar = ar # tl (subtree rs ar)"
  by (induction rs) auto

lemma getDependentArchivesInternal_subtree:
  "registry_ok par (open_archives s) \<Longrightarrow> ar \<in> archive ` set (open_archives s) \<Longrightarrow>
   length (open_archives s) - position (open_archives s) ar \<le> fuel \<Longrightarrow>
   getDependentArchivesInternal fuel ar s vec = Returns (vec @ tl (subtree (open_archives s) ar))"
proof (induction fuel arbitrary: ar vec)
  case 0
  from position_less [OF "0.prems"(2)] "0.prems"(3) show ?case by simp
next
  case (Suc n)
  let ?rs = "open_archives s"
  let ?i = "position ?rs ar"
  let ?oa = "?rs ! ?i"
  have i: "?i < length ?rs" using Suc.prems(2) by (rule position_less)
  then have oa: "?oa \<in> set ?rs" by simp
  have a: "archive ?oa = ar" using Suc.prems(2) by (rule position_nth)
  note child = registry_ok_child [OF Suc.prems(1) oa, unfolded a]
  have loop: "set todo \<subseteq> set (open_children ?oa) \<Longrightarrow>
      for_each (\<lambda>child v. getDependentArchivesInternal n child s (v @ [child])) todo v
        = Returns (v @ concat (map (subtree ?rs) todo))" for todo v
  proof (induction todo arbitrary: v)
    case Nil
    then show ?case by simp
  next
    case (Cons c todo)
    then have c: "c \<in> set (open_children ?oa)" by simp
    from child [OF c] have t: "c \<in> archive ` set ?rs" and p: "?i < position ?rs c" by simp_all
    from p Suc.prems(3) have "length ?rs - position ?rs c \<le> n" by simp
    from Suc.IH [OF Suc.prems(1) t this, of "v @ [c]"]
    have "getDependentArchivesInternal n c s (v @ [c]) = Returns (v @ subtree ?rs c)"
      using subtree_Cons_tl [of ?rs c] by simp
    moreover from Cons.prems have "set todo \<subseteq> set (open_children ?oa)" by simp
    note Cons.IH [OF this, of "v @ subtree ?rs c"]
    ultimately show ?case by simp
  qed
  have "archiveIndex ar s = int ?i" using Suc.prems(2) by (simp add: archiveIndex_eq)
  then have "getDependentArchivesInternal (Suc n) ar s vec
      = for_each (\<lambda>child v. getDependentArchivesInternal n child s (v @ [child]))
          (open_children ?oa) vec"
    by (simp add: Let_def)
  also have "\<dots> = Returns (vec @ concat (map (subtree ?rs) (open_children ?oa)))"
    by (rule loop) simp
  also have "concat (map (subtree ?rs) (open_children ?oa)) = tl (subtree ?rs ar)"
    using subtree_unfold [OF Suc.prems(1,2)] by simp
  finally show ?case .
qed

lemma last_children_first: "last (children_first rs ar) = ar"
  by (induction rs) auto

text \<open>
  C1. In a registry that satisfies its invariant, closing the archive at a valid index
  with enough fuel returns true. With \<open>deps\<close> the archives \<^verbatim>\<open>getDependentArchives\<close>
  lists for it: the resource manager is told to remove the archive and then its
  dependents in exactly that depth-first order; the archive objects are closed children
  first, each dependent once and the archive itself last; one \<^verbatim>\<open>archive_closing\<close> and
  one \<^verbatim>\<open>archive_closed\<close> is announced per closed archive (unless muted); the
  bookmarks into the closed archives are gone; the records left are those of the other
  archives, in their order; no record left lists a closed archive as a child; and the
  invariant holds again.
\<close>

theorem closeArchive_closes_descendants:
  assumes "registry_ok (parent_archive env s) (open_archives s)"
    and "index < length (open_archives s)"
    and "length (open_archives s) \<le> fuel"
  shows "\<exists>deps s' evs.
      getDependentArchives fuel (archive (open_archives s ! index)) s = Returns deps
    \<and> closeArchive fuel env (int index) s = Returns (True, s')
    \<and> events s' = events s @ evs
    \<and> resource_removals evs = archive (open_archives s ! index) # deps
    \<and> archive_closes evs = children_first (open_archives s) (archive (open_archives s ! index))
    \<and> set (archive_closes evs) = set (archive (open_archives s ! index) # deps)
    \<and> last (archive_closes evs) = archive (open_archives s ! index)
    \<and> announced ''archive_closing'' evs = (if muted s then 0 else Suc (length deps))
    \<and> announced ''archive_closed'' evs = (if muted s then 0 else Suc (length deps))
    \<and> map archive (open_archives s')
        = filter (\<lambda>h. h \<notin> set (archive (open_archives s ! index) # deps)) (map archive (open_archives s))
    \<and> (\<forall>oa \<in> set (open_archives s').
          set (open_children oa) \<inter> set (archive (open_archives s ! index) # deps) = {})
    \<and> bookmarks s'
        = filter (\<lambda>b. entryParent env b \<notin> Some ` set (archive (open_archives s ! index) # deps))
            (bookmarks s)
    \<and> registry_ok (parent_archive env s') (open_archives s')"
proof -
  let ?rs = "open_archives s"
  let ?ar = "archive (?rs ! index)"
  let ?par = "parent_archive env s"
  have d: "distinct (map archive ?rs)" using assms(1) by (rule registry_ok_distinct)
  have tracked: "?ar \<in> archive ` set ?rs" using assms(2) by simp
  have pos: "position ?rs ?ar = index" using d assms(2) by (rule position_distinct)
  have f: "length ?rs - position ?rs ?ar \<le> fuel" using assms(3) by simp
  define deps where "deps = tl (subtree ?rs ?ar)"
  have sub: "subtree ?rs ?ar = ?ar # deps" unfolding deps_def by (rule subtree_Cons_tl)
  have g: "getDependentArchives fuel ?ar s = Returns deps"
    unfolding getDependentArchives_def deps_def
    using getDependentArchivesInternal_subtree [OF assms(1) tracked f, of "[]"] by simp
  from closeArchive_subtree [OF assms(1) tracked f] obtain evs where
    c: "closeArchive fuel env (int index) s = Returns (True, closed_state env ?ar (set (?ar # deps)) evs s)"
    and e: "resource_removals evs = ?ar # deps"
      "archive_closes evs = children_first ?rs ?ar"
      "announced ''archive_closing'' evs = (if muted s then 0 else Suc (length deps))"
      "announced ''archive_closed'' evs = (if muted s then 0 else Suc (length deps))"
    unfolding pos sub by auto
  let ?s' = "closed_state env ?ar (set (?ar # deps)) evs s"
  have reg: "open_archives ?s' = map (unlist ?ar) (without (set (subtree ?rs ?ar)) ?rs)"
    by (simp add: closed_state_def sub)
  have ok': "registry_ok ?par (open_archives ?s')"
    unfolding reg using assms(1) by (rule registry_ok_closed)
  have par': "parent_archive env ?s' = ?par"
    by (rule parent_archive_frame) (simp add: closed_state_def)
  have handles: "map archive (open_archives ?s') = filter (\<lambda>h. h \<notin> set (?ar # deps)) (map archive ?rs)"
    by (simp add: closed_state_def without_def unlist_def filter_map comp_def)
  have clean: "set (open_children oa) \<inter> set (?ar # deps) = {}" if "oa \<in> set (open_archives ?s')" for oa
  proof (rule ccontr)
    assume "set (open_children oa) \<inter> set (?ar # deps) \<noteq> {}"
    then obtain h where h: "h \<in> set (open_children oa)" "h \<in> set (?ar # deps)" by auto
    from registry_ok_child [OF ok' that h(1)] have "h \<in> archive ` set (open_archives ?s')" by simp
    then have "h \<in> set (map archive (open_archives ?s'))" by simp
    with h(2) show False unfolding handles by simp
  qed
  show ?thesis
  proof (intro exI [of _ deps] exI [of _ ?s'] exI [of _ evs] conjI ballI)
    show "getDependentArchives fuel ?ar s = Returns deps" by (rule g)
    show "closeArchive fuel env (int index) s = Returns (True, ?s')" by (rule c)
    show "events ?s' = events s @ evs" by (simp add: closed_state_def)
    show "resource_removals evs = ?ar # deps" by (rule e)
    show "archive_closes evs = children_first ?rs ?ar" by (rule e)
    show "set (archive_closes evs) = set (?ar # deps)"
      unfolding e(2) set_children_first sub ..
    show "last (archive_closes evs) = ?ar" unfolding e(2) by (rule last_children_first)
    show "announced ''archive_closing'' evs = (if muted s then 0 else Suc (length deps))" by (rule e)
    show "announced ''archive_closed'' evs = (if muted s then 0 else Suc (length deps))" by (rule e)
    show "map archive (open_archives ?s') = filter (\<lambda>h. h \<notin> set (?ar # deps)) (map archive ?rs)"
      by (rule handles)
    show "set (open_children oa) \<inter> set (?ar # deps) = {}" if "oa \<in> set (open_archives ?s')" for oa
      using that by (rule clean)
    show "bookmarks ?s' = filter (\<lambda>b. entryParent env b \<notin> Some ` set (?ar # deps)) (bookmarks s)"
      by (simp add: closed_state_def)
    show "registry_ok (parent_archive env ?s') (open_archives ?s')"
      unfolding par' by (rule ok')
  qed
qed


theorem closeArchive_closes_descendants_witness:
  "registry_ok (parent_archive nested_env nested_state) (open_archives nested_state)
   \<and> (0::nat) < length (open_archives nested_state)
   \<and> length (open_archives nested_state) \<le> 4
   \<and> getDependentArchives 4 1 nested_state = Returns [2, 3]
   \<and> (\<exists>s' evs. closeArchive 4 nested_env 0 nested_state = Returns (True, s')
        \<and> events s' = events nested_state @ evs
        \<and> resource_removals evs = [1, 2, 3]
        \<and> archive_closes evs = [3, 2, 1]
        \<and> map archive (open_archives s') = [4]
        \<and> bookmarks s' = [40])"
proof -
  have h1: "registry_ok (parent_archive nested_env nested_state) (open_archives nested_state)"
    by (simp add: nested_state_def initial_state_def nested_env_def empty_env_def parent_archive_def)
  have h2: "(0::nat) < length (open_archives nested_state)"
    and h3: "length (open_archives nested_state) \<le> 4"
    and a: "archive (open_archives nested_state ! 0) = 1"
    and m: "map archive (open_archives nested_state) = [1, 2, 3, 4]"
    and b: "bookmarks nested_state = [30, 40]"
    by (simp_all add: nested_state_def initial_state_def)
  have g: "getDependentArchives 4 1 nested_state = Returns [2, 3]"
    by (simp add: getDependentArchives_def eval_nat_numeral archiveIndex_def nested_state_def
        initial_state_def)
  have cf: "children_first (open_archives nested_state) 1 = [3, 2, 1]"
    by (simp add: nested_state_def initial_state_def)
  have p: "entryParent nested_env 30 = Some 2" "entryParent nested_env 40 = Some 4"
    by (simp_all add: nested_env_def empty_env_def)
  from closeArchive_closes_descendants [OF h1 h2 h3] obtain deps s' evs where
    r: "getDependentArchives 4 (archive (open_archives nested_state ! 0)) nested_state = Returns deps"
      "closeArchive 4 nested_env (int 0) nested_state = Returns (True, s')"
      "events s' = events nested_state @ evs"
      "resource_removals evs = archive (open_archives nested_state ! 0) # deps"
      "archive_closes evs
         = children_first (open_archives nested_state) (archive (open_archives nested_state ! 0))"
      "map archive (open_archives s')
         = filter (\<lambda>h. h \<notin> set (archive (open_archives nested_state ! 0) # deps))
             (map archive (open_archives nested_state))"
      "bookmarks s'
         = filter (\<lambda>b. entryParent nested_env b
                         \<notin> Some ` set (archive (open_archives nested_state ! 0) # deps))
             (bookmarks nested_state)"
    by blast
  from r(1) g a have deps: "deps = [2, 3]" by simp
  have fin: "closeArchive 4 nested_env 0 nested_state = Returns (True, s')
        \<and> events s' = events nested_state @ evs
        \<and> resource_removals evs = [1, 2, 3]
        \<and> archive_closes evs = [3, 2, 1]
        \<and> map archive (open_archives s') = [4]
        \<and> bookmarks s' = [40]"
    using r(2-7) unfolding a deps m b cf by (simp add: p)
  show ?thesis
    by (intro conjI exI [of _ s'] exI [of _ evs]) (simp_all only: h1 h2 h3 g fin)
qed

section \<open>Verification: opening archives\<close>

lemma announced_Cons_other [simp]:
  "announced name (ListenTo a # es) = announced name es"
  "announced name (ResourceAdd a # es) = announced name es"
  "announced name (ResourceRemove a # es) = announced name es"
  "announced name (ArchiveClose a # es) = announced name es"
  "announced name (Announce n d # es) = (if n = name then Suc (announced name es) else announced name es)"
  "announced name [] = 0"
  by (simp_all add: announced_def)

lemma announce_opened_frame:
  "open_archives (announce_opened silent a s) = open_archives s"
  "archiveFilename (announce_opened silent a s) = archiveFilename s"
  "muted (announce_opened silent a s) = muted s"
  "next_archive (announce_opened silent a s) = next_archive s"
  "announced ''archive_added'' (events (announce_opened silent a s)) = announced ''archive_added'' (events s)"
  by (simp_all add: announce_opened_def announce_def)

lemma addRecentFile_frame:
  "open_archives (addRecentFile env p s) = open_archives s"
  "archiveFilename (addRecentFile env p s) = archiveFilename s"
  "muted (addRecentFile env p s) = muted s"
  "next_archive (addRecentFile env p s) = next_archive s"
  "announced ''archive_added'' (events (addRecentFile env p s)) = announced ''archive_added'' (events s)"
  by (simp_all add: addRecentFile_def announce_def Let_def split: option.splits)











lemma openDirArchive_failure:
  "openDirArchive fuel ends_pod env dir manage silent s = Returns (Inl err, s') \<Longrightarrow> s' = s"
  by (auto simp: openDirArchive_def instantiate_def Let_def
      split: option.splits if_splits outcome.splits)

lemma openArchive_failure:
  "openArchive fuel ends_pod env filename manage silent s = Returns (Inl err, s') \<Longrightarrow> s' = s"
  by (auto simp: openArchive_def instantiate_def Let_def dest: openDirArchive_failure
      split: option.splits if_splits outcome.splits)

lemma openArchive_entry_failure:
  "openArchive_entry fuel ends_pod env entry manage silent s = Returns (Inl err, s') \<Longrightarrow> s' = s"
  by (auto simp: openArchive_entry_def openArchive_entry_with_def instantiate_def Let_def
      split: option.splits if_splits outcome.splits)

lemma closeArchive_failure:
  "closeArchive fuel env index s = Returns (False, s') \<Longrightarrow> s' = s"
proof (cases fuel)
  case 0
  then show "closeArchive fuel env index s = Returns (False, s') \<Longrightarrow> s' = s" by simp
next
  case (Suc n)
  assume r: "closeArchive fuel env index s = Returns (False, s')"
  show "s' = s"
  proof (cases "index < 0 \<or> index \<ge> int (length (open_archives s))")
    case True
    with r Suc show ?thesis by simp
  next
    case False
    have "closeArchive_finish env index t \<noteq> Returns (False, s')" for t
      by (simp add: closeArchive_finish_def Let_def)
    with r Suc False show ?thesis
      by (simp add: Let_def split: outcome.splits)
  qed
qed

lemma closeArchive_filename_from_failure:
  "closeArchive_filename_from fuel env filename rs a s = Returns (False, s') \<Longrightarrow> s' = s"
  by (induction rs arbitrary: a) (auto dest: closeArchive_failure split: if_splits)

lemma closeArchive_archive_from_failure:
  "closeArchive_archive_from fuel env ar rs a s = Returns (False, s') \<Longrightarrow> s' = s"
  by (induction rs arbitrary: a) (auto dest: closeArchive_failure split: if_splits)

lemma addArchive_failure:
  "addArchive fuel ends_pod env ar s = Returns (False, s') \<Longrightarrow> s' = s"
proof (cases fuel)
  case 0
  then show "addArchive fuel ends_pod env ar s = Returns (False, s') \<Longrightarrow> s' = s"
    by (simp add: addArchive.simps)
next
  case (Suc n)
  assume "addArchive fuel ends_pod env ar s = Returns (False, s')"
  with Suc show "s' = s"
    by (cases ar) (simp_all add: addArchive.simps Let_def split: if_splits outcome.splits)
qed

lemma deleteBookmark_failure: "deleteBookmark e s = (False, s') \<Longrightarrow> s' = s"
  by (auto simp: deleteBookmark_def split: option.splits)

lemma deleteBookmark_index_failure: "deleteBookmark_index index s = (False, s') \<Longrightarrow> s' = s"
  by (auto simp: deleteBookmark_index_def split: if_splits)

lemma addBaseResourcePath_failure: "addBaseResourcePath s_cmp env path s = (False, s') \<Longrightarrow> s' = s"
  by (auto simp: addBaseResourcePath_def split: if_splits)

lemma deleteBookmarksInArchive_failure:
  "deleteBookmarksInArchive env ar s = (False, s') \<Longrightarrow> s' = s"
proof -
  assume r: "deleteBookmarksInArchive env ar s = (False, s')"
  then have n: "\<not> (\<exists>b \<in> set (bookmarks s). entryParent env b = Some ar)"
    by (auto simp: deleteBookmarksInArchive_def deleteBookmarksInArchive_loop_eq Let_def
        split: if_splits)
  then have "filter (\<lambda>b. entryParent env b \<noteq> Some ar) (bookmarks s) = bookmarks s"
    by (intro filter_True) auto
  with r n show "s' = s"
    by (auto simp: deleteBookmarksInArchive_def deleteBookmarksInArchive_loop_eq Let_def
        split: if_splits)
qed

lemma deleteBookmarksInDir_loop_failure:
  "deleteBookmarksInDir_loop fuel env node ar bs removed = Returns (False, bs')
   \<Longrightarrow> bs' = bs \<and> \<not> removed"
proof (induction bs arbitrary: removed bs')
  case Nil
  then show ?case by simp
next
  case (Cons b bs)
  show ?case
  proof (cases "entryParent env b = Some ar
      \<and> within_removed_dir fuel env node (rootDir env ar) (entryParentDir env b) = Returns True")
    case True
    with Cons.prems have "deleteBookmarksInDir_loop fuel env node ar bs True = Returns (False, bs')"
      by (simp add: Let_def)
    from Cons.IH [OF this] show ?thesis by simp
  next
    case False
    with Cons.prems obtain r tl where
      r: "deleteBookmarksInDir_loop fuel env node ar bs removed = Returns (r, tl)"
      and e: "Returns (r, b # tl) = (Returns (False, bs') :: (bool \<times> entry list) outcome)"
      by (auto simp: Let_def split: if_splits outcome.splits)
    from e have "r = False" "bs' = b # tl" by simp_all
    with Cons.IH [of removed tl] r show ?thesis by simp
  qed
qed

lemma deleteBookmarksInDir_failure:
  "deleteBookmarksInDir fuel env node s = Returns (False, s') \<Longrightarrow> s' = s"
proof -
  assume r: "deleteBookmarksInDir fuel env node s = Returns (False, s')"
  obtain removed s1 where d: "deleteBookmark (nodeDirEntry env node) s = (removed, s1)"
    by (cases "deleteBookmark (nodeDirEntry env node) s")
  from r d obtain bs where
    l: "deleteBookmarksInDir_loop fuel env node (nodeArchive env node) (bookmarks s1) removed
         = Returns (False, bs)" and s': "s' = s1\<lparr>bookmarks := bs\<rparr>"
    by (auto simp: deleteBookmarksInDir_def Let_def split: outcome.splits if_splits)
  from deleteBookmarksInDir_loop_failure [OF l] have "bs = bookmarks s1" "\<not> removed" by simp_all
  with d deleteBookmark_failure [of "nodeDirEntry env node" s s1] s' show "s' = s" by simp
qed

lemma newArchive_failure:
  "newArchive fuel ends_pod env format_name fmt s = Returns (None, s') \<Longrightarrow> s' = s"
  by (auto simp: newArchive_def instantiate_def Let_def split: if_splits outcome.splits)

text \<open>
  C4, as stated, fails: \<^verbatim>\<open>openBaseResource\<close> with an index that is out of range returns
  false, but only after it has unloaded the base resource archive that was loaded: the
  state it leaves is not the state it was called in.
\<close>

theorem openBaseResource_fails_after_unloading:
  "base_resource_archive base_state = Some 7
   \<and> fst (openBaseResource base_env 5 base_state) = False
   \<and> base_resource_archive (snd (openBaseResource base_env 5 base_state)) = None
   \<and> events (snd (openBaseResource base_env 5 base_state))
       = [ResourceRemove 7, Announce ''base_resource_changed'' None]
   \<and> snd (openBaseResource base_env 5 base_state) \<noteq> base_state"
proof -
  have r: "openBaseResource base_env 5 base_state
      = (False, base_state\<lparr>base_resource_archive := None, base_resource := -1,
           events := [ResourceRemove 7, Announce ''base_resource_changed'' None]\<rparr>)"
    by (simp add: openBaseResource_def base_env_def base_state_def empty_env_def
      initial_state_def call_def announce_def to_unsigned_def)
  have b: "base_resource_archive base_state = Some 7"
    by (simp add: base_state_def initial_state_def)
  have "base_state\<lparr>base_resource_archive := None, base_resource := -1,
           events := [ResourceRemove 7, Announce ''base_resource_changed'' None]\<rparr> \<noteq> base_state"
  proof
    assume "base_state\<lparr>base_resource_archive := None, base_resource := -1,
           events := [ResourceRemove 7, Announce ''base_resource_changed'' None]\<rparr> = base_state"
    then have "base_resource_archive (base_state\<lparr>base_resource_archive := None, base_resource := -1,
           events := [ResourceRemove 7, Announce ''base_resource_changed'' None]\<rparr>)
        = base_resource_archive base_state" by (rule arg_cong)
    with b show False by simp
  qed
  with b show ?thesis unfolding r by simp
qed

text \<open>
  C4, amended. Every operation of the manager that can report failure, other than
  \<^verbatim>\<open>openBaseResource\<close>, reports it before anything is altered: when an open (by file
  name, by directory or by entry), \<^verbatim>\<open>newArchive\<close>, \<^verbatim>\<open>addArchive\<close>, a close (by index, by
  file name or by archive), \<^verbatim>\<open>addBaseResourcePath\<close> or one of the four bookmark removals
  returns its failure value, the whole state of the manager is as it was before the
  call, so there is nothing to roll back. Such failures occur: for a file that is not open
  yet, an unrecognised format gives \<^verbatim>\<open>UnsupportedFormat\<close> and a recognised format whose
  \<^verbatim>\<open>open\<close> fails gives \<^verbatim>\<open>LoadFailure\<close>; closing an index out of range, adding a null
  archive, deleting a bookmark that is not set and deleting the bookmarks of an archive
  that has none return false; each with the state unchanged.
\<close>

theorem failed_operation_changes_nothing:
  "(openArchive fuel ends_pod env filename manage silent s = Returns (Inl err, s') \<longrightarrow> s' = s)
   \<and> (openDirArchive fuel ends_pod env filename manage silent s = Returns (Inl err, s') \<longrightarrow> s' = s)
   \<and> (openArchive_entry fuel ends_pod env entry manage silent s = Returns (Inl err, s') \<longrightarrow> s' = s)
   \<and> (newArchive fuel ends_pod env format_name format_string s = Returns (None, s') \<longrightarrow> s' = s)
   \<and> (addArchive fuel ends_pod env ar s = Returns (False, s') \<longrightarrow> s' = s)
   \<and> (closeArchive fuel env index s = Returns (False, s') \<longrightarrow> s' = s)
   \<and> (closeArchive_filename fuel env filename s = Returns (False, s') \<longrightarrow> s' = s)
   \<and> (closeArchive_archive fuel env a s = Returns (False, s') \<longrightarrow> s' = s)
   \<and> (addBaseResourcePath s_cmp env filename s = (False, s') \<longrightarrow> s' = s)
   \<and> (deleteBookmark e s = (False, s') \<longrightarrow> s' = s)
   \<and> (deleteBookmark_index i s = (False, s') \<longrightarrow> s' = s)
   \<and> (deleteBookmarksInArchive env a s = (False, s') \<longrightarrow> s' = s)
   \<and> (deleteBookmarksInDir fuel env node s = Returns (False, s') \<longrightarrow> s' = s)
   \<and> ((fileExists env filename \<or> \<not> dirExists env filename) \<and> getArchive filename s = None
        \<and> detect_file env filename = None \<longrightarrow>
      openArchive fuel ends_pod env filename manage silent s = Returns (Inl UnsupportedFormat, s))
   \<and> ((fileExists env filename \<or> \<not> dirExists env filename) \<and> getArchive filename s = None
        \<and> detect_file env filename = Some fmt \<and> \<not> openFile env fmt filename \<longrightarrow>
      openArchive fuel ends_pod env filename manage silent s = Returns (Inl LoadFailure, s))
   \<and> (index < 0 \<or> index \<ge> int (length (open_archives s)) \<longrightarrow>
      closeArchive (Suc fuel) env index s = Returns (False, s))
   \<and> addArchive (Suc fuel) ends_pod env None s = Returns (False, s)
   \<and> (e \<notin> set (bookmarks s) \<longrightarrow> deleteBookmark e s = (False, s))
   \<and> ((\<forall>b \<in> set (bookmarks s). entryParent env b \<noteq> Some a) \<longrightarrow>
      deleteBookmarksInArchive env a s = (False, s))"
proof (intro conjI impI)
  assume "openArchive fuel ends_pod env filename manage silent s = Returns (Inl err, s')"
  then show "s' = s" by (rule openArchive_failure)
next
  assume "openDirArchive fuel ends_pod env filename manage silent s = Returns (Inl err, s')"
  then show "s' = s" by (rule openDirArchive_failure)
next
  assume "openArchive_entry fuel ends_pod env entry manage silent s = Returns (Inl err, s')"
  then show "s' = s" by (rule openArchive_entry_failure)
next
  assume "newArchive fuel ends_pod env format_name format_string s = Returns (None, s')"
  then show "s' = s" by (rule newArchive_failure)
next
  assume "addArchive fuel ends_pod env ar s = Returns (False, s')"
  then show "s' = s" by (rule addArchive_failure)
next
  assume "closeArchive fuel env index s = Returns (False, s')"
  then show "s' = s" by (rule closeArchive_failure)
next
  assume "closeArchive_filename fuel env filename s = Returns (False, s')"
  then show "s' = s" unfolding closeArchive_filename_def by (rule closeArchive_filename_from_failure)
next
  assume "closeArchive_archive fuel env a s = Returns (False, s')"
  then show "s' = s" unfolding closeArchive_archive_def by (rule closeArchive_archive_from_failure)
next
  assume "addBaseResourcePath s_cmp env filename s = (False, s')"
  then show "s' = s" by (rule addBaseResourcePath_failure)
next
  assume "deleteBookmark e s = (False, s')"
  then show "s' = s" by (rule deleteBookmark_failure)
next
  assume "deleteBookmark_index i s = (False, s')"
  then show "s' = s" by (rule deleteBookmark_index_failure)
next
  assume "deleteBookmarksInArchive env a s = (False, s')"
  then show "s' = s" by (rule deleteBookmarksInArchive_failure)
next
  assume "deleteBookmarksInDir fuel env node s = Returns (False, s')"
  then show "s' = s" by (rule deleteBookmarksInDir_failure)
next
  assume "(fileExists env filename \<or> \<not> dirExists env filename) \<and> getArchive filename s = None
        \<and> detect_file env filename = None"
  then show "openArchive fuel ends_pod env filename manage silent s = Returns (Inl UnsupportedFormat, s)"
    by (auto simp: openArchive_def)
next
  assume "(fileExists env filename \<or> \<not> dirExists env filename) \<and> getArchive filename s = None
        \<and> detect_file env filename = Some fmt \<and> \<not> openFile env fmt filename"
  then show "openArchive fuel ends_pod env filename manage silent s = Returns (Inl LoadFailure, s)"
    by (auto simp: openArchive_def)
next
  assume "index < 0 \<or> index \<ge> int (length (open_archives s))"
  then show "closeArchive (Suc fuel) env index s = Returns (False, s)" by simp
next
  show "addArchive (Suc fuel) ends_pod env None s = Returns (False, s)"
    by (simp add: addArchive.simps)
next
  assume "e \<notin> set (bookmarks s)"
  then have "first_index (bookmarks s) e 0 = None" by (simp add: first_index_None)
  then show "deleteBookmark e s = (False, s)" by (simp add: deleteBookmark_def)
next
  assume n: "\<forall>b \<in> set (bookmarks s). entryParent env b \<noteq> Some a"
  then have "filter (\<lambda>b. entryParent env b \<noteq> Some a) (bookmarks s) = bookmarks s"
    by (intro filter_True) auto
  with n show "deleteBookmarksInArchive env a s = (False, s)"
    by (simp add: deleteBookmarksInArchive_def deleteBookmarksInArchive_loop_eq)
qed

theorem failed_operation_changes_nothing_witness:
  "fileExists open_env ''notes.txt'' \<and> getArchive ''notes.txt'' opened_state = None
   \<and> detect_file open_env ''notes.txt'' = None
   \<and> openArchive 0 (\<lambda>n. False) open_env ''notes.txt'' True False opened_state
       = Returns (Inl UnsupportedFormat, opened_state)
   \<and> 5 \<ge> int (length (open_archives opened_state))
   \<and> closeArchive 1 open_env 5 opened_state = Returns (False, opened_state)
   \<and> addArchive 1 (\<lambda>n. False) open_env None opened_state = Returns (False, opened_state)
   \<and> 9 \<notin> set (bookmarks opened_state)
   \<and> deleteBookmark 9 opened_state = (False, opened_state)
   \<and> deleteBookmarksInArchive open_env 1 opened_state = (False, opened_state)"
proof -
  have h: "(fileExists open_env ''notes.txt'' \<or> \<not> dirExists open_env ''notes.txt'')
      \<and> getArchive ''notes.txt'' opened_state = None
      \<and> detect_file open_env ''notes.txt'' = None"
    by (simp add: open_env_def empty_env_def getArchive_def opened_state_def initial_state_def
        detect_file_def file_formats_def slash_path_def backslash_path_def)
  have e: "fileExists open_env ''notes.txt''" by (simp add: open_env_def empty_env_def)
  have i: "(5::int) < 0 \<or> 5 \<ge> int (length (open_archives opened_state))"
    by (simp add: opened_state_def initial_state_def)
  have b: "9 \<notin> set (bookmarks opened_state)"
    "\<forall>b \<in> set (bookmarks opened_state). entryParent open_env b \<noteq> Some 1"
    by (simp_all add: opened_state_def initial_state_def)
  note t = failed_operation_changes_nothing [where fuel = 0 and ends_pod = "\<lambda>n. False"
      and env = open_env and filename = "''notes.txt''" and manage = True and silent = False
      and s = opened_state and index = 5 and e = 9 and a = 1]
  note opens_and_removals = t [THEN conjunct2, THEN conjunct2, THEN conjunct2, THEN conjunct2,
      THEN conjunct2, THEN conjunct2, THEN conjunct2, THEN conjunct2, THEN conjunct2,
      THEN conjunct2, THEN conjunct2, THEN conjunct2, THEN conjunct2]
  note unsupported = opens_and_removals [THEN conjunct1]
  note occurrences = opens_and_removals [THEN conjunct2, THEN conjunct2]
  note bad_index = occurrences [THEN conjunct1]
  note null_archive = occurrences [THEN conjunct2, THEN conjunct1]
  note no_bookmark = occurrences [THEN conjunct2, THEN conjunct2, THEN conjunct1]
  note no_bookmarks = occurrences [THEN conjunct2, THEN conjunct2, THEN conjunct2]
  from unsupported [THEN mp, OF h] bad_index [THEN mp, OF i] null_archive
    no_bookmark [THEN mp, OF b(1)] no_bookmarks [THEN mp, OF b(2)] h e i b(1)
  show ?thesis by simp
qed

section \<open>Verification: opening keeps the registry invariant\<close>

lemma registry_ok_adopt:
  assumes "registry_ok par rs" and "a \<notin> archive ` set rs"
    and "\<And>c. c \<noteq> a \<Longrightarrow> par' c = par c"
    and "p \<in> archive ` set rs \<Longrightarrow> par' a = Some p"
  shows "registry_ok par'
           (map (\<lambda>r. if archive r = p then r\<lparr>open_children := open_children r @ [a]\<rparr> else r) rs
            @ [\<lparr>archive = a, resource = True, open_children = []\<rparr>])"
proof -
  define g where "g = (\<lambda>r::OpenArchive. if archive r = p then r\<lparr>open_children := open_children r @ [a]\<rparr> else r)"
  define new where "new = \<lparr>archive = a, resource = True, open_children = []\<rparr>"
  have ga: "archive (g r) = archive r" for r by (simp add: g_def)
  have gc: "open_children (g r) = (if archive r = p then open_children r @ [a] else open_children r)" for r
    by (simp add: g_def)
  have hs: "archive ` set (map g xs @ [new]) = insert a (archive ` set xs)" for xs
    by (induction xs) (auto simp: ga new_def)
  have "registry_ok par' (map g rs @ [new])"
    using assms(1,2,4)
  proof (induction rs)
    case Nil
    then show ?case by (simp add: new_def)
  next
    case (Cons r rest)
    from Cons.prems have ok: "registry_ok par rest" and na: "a \<notin> archive ` set rest"
      and ra: "archive r \<noteq> a" by auto
    have ih: "registry_ok par' (map g rest @ [new])"
    proof (cases "p \<in> archive ` set rest")
      case True
      with Cons.prems(3) have "par' a = Some p" by simp
      with Cons.IH [OF ok na] show ?thesis by simp
    next
      case False
      then show ?thesis using Cons.IH [OF ok na] by simp
    qed
    have ch: "c \<in> archive ` set rest \<and> par c = Some (archive r) \<and> c \<noteq> a"
      if "c \<in> set (open_children r)" for c
      using Cons.prems(1) that na by auto
    have d: "distinct (open_children r)" and nr: "archive r \<notin> archive ` set rest"
      using Cons.prems(1) by auto
    have an: "a \<notin> set (open_children r)" using ch by auto
    have pa: "par' a = Some p" if "archive r = p"
      using Cons.prems(3) that by simp
    have "registry_ok par' (g r # (map g rest @ [new]))"
      unfolding registry_ok.simps hs ga gc
      using ih d nr ra an ch assms(3) pa by auto
    then show ?case by simp
  qed
  then show ?thesis by (simp add: g_def new_def)
qed

lemma registry_ok_append:
  assumes "registry_ok par rs" and "a \<notin> archive ` set rs"
    and "\<And>c. c \<noteq> a \<Longrightarrow> par' c = par c"
  shows "registry_ok par' (rs @ [\<lparr>archive = a, resource = True, open_children = []\<rparr>])"
proof -
  have "map (\<lambda>r. if archive r = a then r\<lparr>open_children := open_children r @ [a]\<rparr> else r) rs = rs"
    using assms(2) by (intro map_idI) (auto simp: image_iff)
  with registry_ok_adopt [OF assms(1,2,3), of a] assms(2) show ?thesis by simp
qed

lemma registry_ok_cong:
  "registry_ok par rs \<Longrightarrow> (\<And>c. c \<in> archive ` set rs \<Longrightarrow> par' c = par c) \<Longrightarrow>
   registry_ok par' rs"
proof (induction rs)
  case Nil
  then show ?case by simp
next
  case (Cons r rest)
  have "registry_ok par' rest"
  proof (rule Cons.IH)
    show "registry_ok par rest" using Cons.prems(1) by simp
    show "par' c = par c" if "c \<in> archive ` set rest" for c
      using Cons.prems(2) [of c] that by simp
  qed
  moreover have "par' c = par c" if "c \<in> set (open_children r)" for c
    using Cons.prems that by auto
  ultimately show ?case using Cons.prems(1) by auto
qed

lemma manager_ok_frame:
  "parentEntry s' = parentEntry s \<Longrightarrow> open_archives s' = open_archives s \<Longrightarrow>
   next_archive s' = next_archive s \<Longrightarrow> manager_ok env s' = manager_ok env s"
  by (simp add: manager_ok_def parent_archive_frame [of s' s])

lemma announce_opened_parentEntry:
  "parentEntry (announce_opened silent a s) = parentEntry s"
  by (simp add: announce_opened_def announce_def)

lemma addRecentFile_parentEntry:
  "parentEntry (addRecentFile env p s) = parentEntry s"
  by (simp add: addRecentFile_def announce_def Let_def split: option.splits)

lemma manager_ok_announce_opened:
  "manager_ok env (announce_opened silent a s) = manager_ok env s"
  by (rule manager_ok_frame) (simp_all add: announce_opened_frame announce_opened_parentEntry)

lemma manager_ok_addRecentFile:
  "manager_ok env (addRecentFile env p s) = manager_ok env s"
  by (rule manager_ok_frame) (simp_all add: addRecentFile_frame addRecentFile_parentEntry)

lemma for_each_Returns_Cons:
  "for_each body (x # xs) s = Returns s' \<Longrightarrow>
   \<exists>t. body x s = Returns t \<and> for_each body xs t = Returns s'"
  by (cases "body x s") simp_all

lemma for_each_invariant:
  "(\<And>x t t'. x \<in> set xs \<Longrightarrow> P t \<Longrightarrow> body x t = Returns t' \<Longrightarrow> P t') \<Longrightarrow>
   P s \<Longrightarrow> for_each body xs s = Returns s' \<Longrightarrow> P s'"
proof (induction xs arbitrary: s)
  case Nil
  then show ?case by simp
next
  case (Cons x xs)
  from for_each_Returns_Cons [OF Cons.prems(3)] obtain t where
    t: "body x s = Returns t" "for_each body xs t = Returns s'" by blast
  from Cons.prems(1) [of x s t] Cons.prems(2) t(1) have pt: "P t" by simp
  have "P u'" if "y \<in> set xs" "P u" "body y u = Returns u'" for y u u'
    using Cons.prems(1) [of y u u'] that by simp
  from Cons.IH [OF this pt t(2)] show ?case .
qed

lemma instantiate_eq:
  "instantiate fmt fname pe s =
     (next_archive s,
      s\<lparr>next_archive := Suc (next_archive s),
        archiveFilename := (case fname of Some f \<Rightarrow> (archiveFilename s)(next_archive s := f)
                            | None \<Rightarrow> archiveFilename s),
        archiveFormat := (archiveFormat s)(next_archive s := fmt),
        parentEntry := (parentEntry s)(next_archive s := pe)\<rparr>)"
  by (simp add: instantiate_def Let_def)

lemma manager_ok_instantiate:
  assumes "manager_ok env s"
  shows "manager_ok env (snd (instantiate fmt fname pe s))"
proof -
  let ?s1 = "snd (instantiate fmt fname pe s)"
  have o: "open_archives ?s1 = open_archives s" and n: "next_archive ?s1 = Suc (next_archive s)"
    by (simp_all add: instantiate_eq)
  have p: "parent_archive env ?s1 c = parent_archive env s c" if "c \<in> archive ` set (open_archives s)" for c
  proof -
    from that assms have "c \<noteq> next_archive s" by (auto simp: manager_ok_def)
    then show ?thesis by (simp add: parent_archive_def instantiate_eq)
  qed
  have "registry_ok (parent_archive env ?s1) (open_archives s)"
  proof (rule registry_ok_cong [of "parent_archive env s"])
    show "registry_ok (parent_archive env s) (open_archives s)"
      using assms by (simp add: manager_ok_def)
  qed (rule p)
  with assms show ?thesis by (auto simp: manager_ok_def o n less_Suc_eq)
qed

text \<open>What \<^verbatim>\<open>addArchive\<close> needs of the state it is called in, for a fresh archive.\<close>

lemma addable_plain:
  assumes "manager_ok env s"
  shows "registry_ok (parent_archive env (snd (instantiate fmt fname None s)))
           (open_archives (snd (instantiate fmt fname None s))
            @ [\<lparr>archive = next_archive s, resource = True, open_children = []\<rparr>])"
proof (rule registry_ok_append [of "parent_archive env s"])
  show "registry_ok (parent_archive env s) (open_archives (snd (instantiate fmt fname None s)))"
    using assms by (simp add: manager_ok_def instantiate_eq)
  show "next_archive s \<notin> archive ` set (open_archives (snd (instantiate fmt fname None s)))"
    using assms by (auto simp: manager_ok_def instantiate_eq)
  show "parent_archive env (snd (instantiate fmt fname None s)) c = parent_archive env s c"
    if "c \<noteq> next_archive s" for c
    using that by (simp add: parent_archive_def instantiate_eq)
qed

lemma openArchive_entry_with_ok:
  assumes add: "\<And>a s b s'.
      registry_ok (parent_archive env s)
        (open_archives s @ [\<lparr>archive = a, resource = True, open_children = []\<rparr>]) \<Longrightarrow>
      (\<forall>oa \<in> set (open_archives s). archive oa < next_archive s) \<Longrightarrow> a < next_archive s \<Longrightarrow>
      add (Some a) s = Returns (b, s') \<Longrightarrow> manager_ok env s'"
    and ok: "manager_ok env s"
    and run: "openArchive_entry_with add ends_pod env entry manage silent s = Returns (r, s')"
  shows "manager_ok env s'"
proof (cases entry)
  case None
  with run ok show ?thesis by (simp add: openArchive_entry_with_def)
next
  case (Some e)
  show ?thesis
  proof (cases "entry_already_open s (open_archives s) e")
    case (Some ar)
    with run \<open>entry = Some e\<close> have "s' = announce_opened silent ar s"
      by (simp add: openArchive_entry_with_def)
    with ok show ?thesis by (simp add: manager_ok_announce_opened)
  next
    case None
    note closed = this
    show ?thesis
    proof (cases "detect_entry ends_pod env e")
      case None
      with run \<open>entry = Some e\<close> closed ok show ?thesis by (simp add: openArchive_entry_with_def)
    next
      case (Some fmt)
      show ?thesis
      proof (cases "openEntry env fmt e")
        case False
        with run \<open>entry = Some e\<close> closed Some ok show ?thesis
          by (simp add: openArchive_entry_with_def)
      next
        case True
        let ?new = "next_archive s"
        let ?s1 = "snd (instantiate fmt None (Some e) s)"
        let ?rs = "open_archives s"
        obtain s1 where i: "instantiate fmt None (Some e) s = (?new, s1)" and s1: "s1 = ?s1"
          by (simp add: instantiate_eq)
        have o1: "open_archives ?s1 = ?rs" and n1: "next_archive ?s1 = Suc ?new"
          and p1: "parentEntry ?s1 = (parentEntry s)(?new := Some e)"
          by (simp_all add: instantiate_eq)
        show ?thesis
        proof (cases manage)
          case False
          with run \<open>entry = Some e\<close> closed Some True i have "s' = s1"
            by (simp add: openArchive_entry_with_def)
          with ok show ?thesis by (simp add: s1 manager_ok_instantiate)
        next
          case manage: True
          define index_parent where "index_parent =
              (case entryParent env e of Some p \<Rightarrow> archiveIndex p ?s1 | None \<Rightarrow> -1)"
          define s2 where "s2 = (if index_parent \<ge> 0
                                  then ?s1\<lparr>open_archives := (open_archives ?s1)
                                         [nat index_parent :=
                                            (open_archives ?s1 ! nat index_parent)
                                              \<lparr>open_children :=
                                                 open_children (open_archives ?s1 ! nat index_parent)
                                                   @ [?new]\<rparr>]\<rparr>
                                  else ?s1)"
          from run \<open>entry = Some e\<close> closed Some True i manage obtain r0 where
            r0: "add (Some ?new) s2 = Returns r0" and s': "s' = announce_opened silent ?new (snd r0)"
            unfolding openArchive_entry_with_def s2_def index_parent_def s1 [symmetric]
            by (simp add: Let_def split: outcome.splits)
          have fresh: "?new \<notin> archive ` set ?rs" using ok by (auto simp: manager_ok_def)
          have okr: "registry_ok (parent_archive env s) ?rs" using ok by (simp add: manager_ok_def)
          have d: "distinct (map archive ?rs)" using okr by (rule registry_ok_distinct)
          have n2: "next_archive s2 = Suc ?new" and p2: "parentEntry s2 = (parentEntry s)(?new := Some e)"
            by (simp_all add: s2_def n1 p1)
          have par2: "parent_archive env s2 c = parent_archive env s c" if "c \<noteq> ?new" for c
            using that by (simp add: parent_archive_def p2)
          have reg: "registry_ok (parent_archive env s2)
                       (open_archives s2 @ [\<lparr>archive = ?new, resource = True, open_children = []\<rparr>])
                     \<and> archive ` set (open_archives s2) = archive ` set ?rs"
          proof (cases "index_parent \<ge> 0")
            case False
            then have "open_archives s2 = ?rs" by (simp add: s2_def o1)
            with registry_ok_append [OF okr fresh par2] show ?thesis by simp
          next
            case True
            then obtain p where p: "entryParent env e = Some p" "p \<in> archive ` set ?rs"
              "index_parent = int (position ?rs p)"
              unfolding index_parent_def
              by (auto simp: archiveIndex_eq o1 split: option.splits if_splits)
            let ?i = "position ?rs p"
            have ip: "?i < length ?rs" "archive (?rs ! ?i) = p"
              using p(2) by (simp_all add: position_less position_nth)
            have "open_archives s2 = ?rs[?i := (?rs ! ?i)\<lparr>open_children := open_children (?rs ! ?i) @ [?new]\<rparr>]"
              using True by (simp add: s2_def o1 p(3))
            also have "\<dots> = map (\<lambda>r. if archive r = p
                                    then r\<lparr>open_children := open_children r @ [?new]\<rparr> else r) ?rs"
              using list_update_as_map [OF d ip(1), of "\<lambda>r. r\<lparr>open_children := open_children r @ [?new]\<rparr>"]
              by (simp add: ip(2))
            finally have o2: "open_archives s2 = map (\<lambda>r. if archive r = p
                                    then r\<lparr>open_children := open_children r @ [?new]\<rparr> else r) ?rs" .
            have pn: "parent_archive env s2 ?new = Some p"
              by (simp add: parent_archive_def p2 p(1))
            have "map archive (open_archives s2) = map archive ?rs"
              unfolding o2 map_map by (rule map_cong) simp_all
            then have "set (map archive (open_archives s2)) = set (map archive ?rs)" by (rule arg_cong)
            then have "archive ` set (open_archives s2) = archive ` set ?rs" by simp
            with registry_ok_adopt [OF okr fresh par2 pn] show ?thesis
              unfolding o2 by simp
          qed
          have lt: "\<forall>oa \<in> set (open_archives s2). archive oa < next_archive s2"
          proof
            fix oa assume "oa \<in> set (open_archives s2)"
            then have "archive oa \<in> archive ` set ?rs" using reg by blast
            with ok show "archive oa < next_archive s2" by (auto simp: manager_ok_def n2 less_Suc_eq)
          qed
          have "add (Some ?new) s2 = Returns (fst r0, snd r0)" using r0 by simp
          with reg lt have "manager_ok env (snd r0)"
            by (intro add [where s = s2 and a = ?new and b = "fst r0"]) (simp_all add: n2)
          then show ?thesis by (simp add: s' manager_ok_announce_opened)
        qed
      qed
    qed
  qed
qed

lemma addArchive_ok:
  "registry_ok (parent_archive env s)
     (open_archives s @ [\<lparr>archive = a, resource = True, open_children = []\<rparr>]) \<Longrightarrow>
   (\<forall>oa \<in> set (open_archives s). archive oa < next_archive s) \<Longrightarrow> a < next_archive s \<Longrightarrow>
   addArchive fuel ends_pod env (Some a) s = Returns (b, s') \<Longrightarrow> manager_ok env s'"
proof (induction fuel arbitrary: s a b s')
  case 0
  then show ?case by (simp add: addArchive.simps)
next
  case (Suc n)
  define s4 where "s4 = call (ResourceAdd a) (announce ''archive_added'' None (call (ListenTo a)
      (s\<lparr>open_archives := open_archives s @ [\<lparr>archive = a, resource = True, open_children = []\<rparr>]\<rparr>)))"
  have o4: "open_archives s4 = open_archives s @ [\<lparr>archive = a, resource = True, open_children = []\<rparr>]"
    and n4: "next_archive s4 = next_archive s" and p4: "parentEntry s4 = parentEntry s"
    by (simp_all add: s4_def call_def announce_def)
  have ok4: "manager_ok env s4"
    using Suc.prems(1,2,3) by (auto simp: manager_ok_def o4 n4 parent_archive_frame [OF p4])
  define body where "body = (\<lambda>e t.
                   let t1 = (if entryType t e = None
                             then t\<lparr>entryType := (entryType t)(e := detectEntryType env e)\<rparr>
                             else t)
                   in if entryType t1 e = Some ''wad''
                      then (case openArchive_entry_with (addArchive n ends_pod env) ends_pod env
                                   (Some e) True True t1 of
                              Returns r \<Rightarrow> Returns (snd r)
                            | OutOfFuel \<Rightarrow> OutOfFuel
                            | Undefined \<Rightarrow> Undefined)
                      else Returns t1)"
  have step: "manager_ok env t'" if "manager_ok env t" "body e t = Returns t'" for e t t'
  proof -
    define t1 where "t1 = (if entryType t e = None
                             then t\<lparr>entryType := (entryType t)(e := detectEntryType env e)\<rparr>
                             else t)"
    have ok1: "manager_ok env t1"
      using that(1) manager_ok_frame [of t1 t env] by (simp add: t1_def)
    show ?thesis
    proof (cases "entryType t1 e = Some ''wad''")
      case False
      with that(2) have "t' = t1" by (simp add: body_def t1_def Let_def)
      with ok1 show ?thesis by simp
    next
      case True
      with that(2) obtain r where
        r: "openArchive_entry_with (addArchive n ends_pod env) ends_pod env (Some e) True True t1
              = Returns r" "t' = snd r"
        unfolding body_def t1_def [symmetric] Let_def by (simp split: outcome.splits)
      from r(1) have rr: "openArchive_entry_with (addArchive n ends_pod env) ends_pod env (Some e) True True t1
              = Returns (fst r, snd r)" by simp
      have "manager_ok env (snd r)"
        by (rule openArchive_entry_with_ok [where add = "addArchive n ends_pod env" and s = t1,
              OF _ ok1 rr]) (erule (3) Suc.IH)
      with r(2) show ?thesis by simp
    qed
  qed
  show ?case
  proof (cases "(formatId env (archiveFormat s4 a) = ''zip'' \<or> formatId env (archiveFormat s4 a) = ''folder'')
         \<and> auto_open_wads_root s4")
    case False
    with Suc.prems(4) have "s' = s4"
      unfolding addArchive.simps s4_def Let_def by (simp split: if_splits)
    with ok4 show ?thesis by simp
  next
    case True
    with Suc.prems(4) have "for_each body (allEntries env a) s4 = Returns s'"
      unfolding addArchive.simps s4_def [symmetric] Let_def
      by (simp add: body_def Let_def split: outcome.splits)
    from for_each_invariant [of "allEntries env a" "manager_ok env" body, OF step ok4 this]
    show ?thesis by simp
  qed
qed

lemma openArchive_entry_ok:
  "manager_ok env s \<Longrightarrow>
   openArchive_entry fuel ends_pod env entry manage silent s = Returns (r, s') \<Longrightarrow> manager_ok env s'"
  unfolding openArchive_entry_def
  by (rule openArchive_entry_with_ok [where add = "addArchive fuel ends_pod env"]) (rule addArchive_ok)

lemma opened_file_ok:
  assumes ok: "manager_ok env s"
    and run: "(let (new_archive, s1) = instantiate fmt (Some filename) None s in
                   if manage
                   then (case addArchive fuel ends_pod env (Some new_archive) s1 of
                           Returns r \<Rightarrow>
                             Returns (Inr new_archive,
                               addRecentFile env filename
                                 (announce_opened silent new_archive (snd r)))
                         | OutOfFuel \<Rightarrow> OutOfFuel
                         | Undefined \<Rightarrow> Undefined)
                   else Returns (Inr new_archive, s1)) = Returns (r, s')"
  shows "manager_ok env s'"
proof -
  let ?new = "next_archive s"
  let ?s1 = "snd (instantiate fmt (Some filename) None s)"
  obtain s1 where i: "instantiate fmt (Some filename) None s = (?new, s1)" and s1: "s1 = ?s1"
    by (simp add: instantiate_eq)
  show ?thesis
  proof (cases manage)
    case False
    with run i have "s' = s1" by simp
    with ok show ?thesis by (simp add: s1 manager_ok_instantiate)
  next
    case True
    with run i obtain r0 where
      r0: "addArchive fuel ends_pod env (Some ?new) ?s1 = Returns r0"
      and s': "s' = addRecentFile env filename (announce_opened silent ?new (snd r0))"
      unfolding s1 [symmetric] by (simp split: outcome.splits)
    have "\<forall>oa \<in> set (open_archives ?s1). archive oa < next_archive ?s1"
      using ok by (auto simp: manager_ok_def instantiate_eq less_Suc_eq)
    moreover have "?new < next_archive ?s1" by (simp add: instantiate_eq)
    moreover have "addArchive fuel ends_pod env (Some ?new) ?s1 = Returns (fst r0, snd r0)"
      using r0 by simp
    ultimately have "manager_ok env (snd r0)"
      by (rule addArchive_ok [OF addable_plain [OF ok]])
    then show ?thesis by (simp add: s' manager_ok_addRecentFile manager_ok_announce_opened)
  qed
qed

lemma openDirArchive_ok:
  assumes "manager_ok env s"
    and "openDirArchive fuel ends_pod env dir manage silent s = Returns (r, s')"
  shows "manager_ok env s'"
proof (cases "getArchive dir s")
  case (Some a)
  with assms(2) have "s' = announce_opened silent a s" by (auto simp: openDirArchive_def)
  with assms(1) show ?thesis by (simp add: manager_ok_announce_opened)
next
  case None
  show ?thesis
  proof (cases "openFile env DirArchive dir")
    case False
    with assms None show ?thesis by (simp add: openDirArchive_def)
  next
    case True
    show ?thesis
      by (rule opened_file_ok [OF assms(1), where fmt = DirArchive and filename = dir
            and manage = manage and fuel = fuel and ends_pod = ends_pod and silent = silent
            and r = r])
         (use assms(2) None True in \<open>simp add: openDirArchive_def\<close>)
  qed
qed

lemma openArchive_ok:
  assumes "manager_ok env s"
    and "openArchive fuel ends_pod env filename manage silent s = Returns (r, s')"
  shows "manager_ok env s'"
proof (cases "\<not> fileExists env filename \<and> dirExists env filename")
  case True
  with assms(2) have "openDirArchive fuel ends_pod env filename manage silent s = Returns (r, s')"
    by (simp add: openArchive_def)
  from openDirArchive_ok [OF assms(1) this] show ?thesis .
next
  case False
  note plain = this
  show ?thesis
  proof (cases "getArchive filename s")
    case (Some a)
    with assms(2) plain have "s' = announce_opened silent a s"
      by (auto simp: openArchive_def)
    with assms(1) show ?thesis by (simp add: manager_ok_announce_opened)
  next
    case None
    note closed = this
    show ?thesis
    proof (cases "detect_file env filename")
      case None
      with assms(2) plain closed have "s' = s"
        by (auto simp: openArchive_def)
      with assms(1) show ?thesis by simp
    next
      case (Some fmt)
      show ?thesis
      proof (cases "openFile env fmt filename")
        case False
        with assms(2) plain closed Some have "s' = s"
          by (auto simp: openArchive_def)
        with assms(1) show ?thesis by simp
      next
        case True
        show ?thesis
          by (rule opened_file_ok [OF assms(1), where fmt = fmt and filename = filename
                and manage = manage and fuel = fuel and ends_pod = ends_pod and silent = silent
                and r = r])
             (use assms(2) plain closed Some True in
                \<open>simp add: openArchive_def\<close>)
      qed
    qed
  qed
qed

text \<open>
  The manager as it is constructed satisfies the invariant, and every open that returns
  (by file name, by directory or by entry, managed or not, with or without the opening
  of the WAD entries in the root of a zip) keeps it.
\<close>

theorem opening_keeps_manager_ok:
  "manager_ok env initial_state
   \<and> (manager_ok env s \<and> openArchive fuel ends_pod env filename manage silent s = Returns (r, s')
        \<longrightarrow> manager_ok env s')
   \<and> (manager_ok env s \<and> openDirArchive fuel ends_pod env filename manage silent s = Returns (r, s')
        \<longrightarrow> manager_ok env s')
   \<and> (manager_ok env s \<and> openArchive_entry fuel ends_pod env entry manage silent s = Returns (r, s')
        \<longrightarrow> manager_ok env s')"
proof (intro conjI impI)
  show "manager_ok env initial_state" by (simp add: manager_ok_def initial_state_def)
qed (erule conjE, erule (1) openArchive_ok openDirArchive_ok openArchive_entry_ok)+

end
